theory Spec2Isabelle
  imports Main "HOL-Library.Sublist" "HOL-Library.Product_Lexorder"
begin

section \<open>Data model of constraints.go\<close>

text \<open>
  The Go type switches of \<^verbatim>\<open>Intersection\<close> and \<^verbatim>\<open>Union\<close> distinguish five dynamic
  types of a \<^verbatim>\<open>Constraint\<close> interface value: \<^verbatim>\<open>any\<close>, \<^verbatim>\<open>none\<close>, \<^verbatim>\<open>*Version\<close>,
  \<^verbatim>\<open>rangeConstraint\<close> and \<^verbatim>\<open>unionConstraint\<close>, and have a \<^verbatim>\<open>default\<close> branch for
  everything else. The payload types \<^verbatim>\<open>Version\<close> and \<^verbatim>\<open>rangeConstraint\<close> are declared
  outside constraints.go; they are the type parameters \<open>'v\<close> and \<open>'r\<close>.

  \<^verbatim>\<open>realConstraint\<close> is the interface of the members of a \<^verbatim>\<open>unionConstraint\<close> and of a
  \<^verbatim>\<open>constraintList\<close>: per its comment, a \<^verbatim>\<open>*Version\<close> or a \<^verbatim>\<open>rangeConstraint\<close>.
\<close>

datatype ('v, 'r) realConstraint = VersionR 'v | RangeR 'r

datatype ('v, 'r) constraint =
    AnyC
  | NoneC
  | VersionC 'v
  | RangeC 'r
  | UnionC "('v, 'r) realConstraint list"
  | OtherC  \<comment> \<open>an interface value of no listed dynamic type, for instance the nil interface\<close>

text \<open>A \<^verbatim>\<open>realConstraint\<close> used where a \<^verbatim>\<open>Constraint\<close> is expected keeps its dynamic type.\<close>

fun toConstraint :: "('v, 'r) realConstraint \<Rightarrow> ('v, 'r) constraint" where
  "toConstraint (VersionR v) = VersionC v"
| "toConstraint (RangeR r) = RangeC r"

text \<open>The checked type assertion \<^verbatim>\<open>c.(realConstraint)\<close> with its \<^verbatim>\<open>ok\<close> result.\<close>

fun asReal :: "('v, 'r) constraint \<Rightarrow> ('v, 'r) realConstraint option" where
  "asReal (VersionC v) = Some (VersionR v)"
| "asReal (RangeC r) = Some (RangeR r)"
| "asReal _ = None"

text \<open>The two panics that the code of constraints.go itself can raise.\<close>

datatype panic =
    UnknownConstraintType  \<comment> \<open>\<^verbatim>\<open>panic("unknown constraint type")\<close>\<close>
  | TypeAssertionFailed    \<comment> \<open>an unchecked type assertion \<^verbatim>\<open>x.(T)\<close> on a value that is no \<^verbatim>\<open>T\<close>\<close>

text \<open>
  Modelled from the spec: \<^verbatim>\<open>None()\<close> and \<^verbatim>\<open>IsNone\<close> are declared outside constraints.go;
  the spec names them the singleton accessor and the test for the Empty variant.
\<close>

definition IsNone :: "('v, 'r) constraint \<Rightarrow> bool" where
  "IsNone c = (case c of NoneC \<Rightarrow> True | _ \<Rightarrow> False)"

subsection \<open>Collaborators declared outside constraints.go\<close>

text \<open>
  The methods and functions that constraints.go calls but does not define are the fields of
  one record, passed to every function that uses them:
  \<^item> \<open>Intersect a b\<close> is the method call \<^verbatim>\<open>a.Intersect(b)\<close>;
  \<^item> \<open>Equal a b\<close> is \<^verbatim>\<open>a.Equal(b)\<close> on two versions;
  \<^item> \<open>rangeUnion r c\<close> is \<^verbatim>\<open>r.Union(c)\<close> with a \<^verbatim>\<open>rangeConstraint\<close> receiver;
  \<^item> \<open>rangeMatchesAny r c\<close> is \<^verbatim>\<open>r.MatchesAny(c)\<close> with a \<^verbatim>\<open>rangeConstraint\<close> receiver;
  \<^item> \<open>areAdjacent r1 r2\<close> is the function \<^verbatim>\<open>areAdjacent\<close> at two ranges;
  \<^item> \<open>Less a b\<close> is the comparison that \<^verbatim>\<open>constraintList\<close> gives to \<^verbatim>\<open>sort.Sort\<close>;
  \<^item> \<open>rewriteRange\<close> and \<open>parseConstraint\<close> are the functions of these names; the
    parser returns \<open>Inl\<close> of its error or \<open>Inr\<close> of the parsed constraint.
\<close>

record ('v, 'r, 'e) collaborators =
  Intersect :: "('v, 'r) constraint \<Rightarrow> ('v, 'r) constraint \<Rightarrow> ('v, 'r) constraint"
  Equal :: "'v \<Rightarrow> 'v \<Rightarrow> bool"
  rangeUnion :: "'r \<Rightarrow> ('v, 'r) constraint \<Rightarrow> ('v, 'r) constraint"
  rangeMatchesAny :: "'r \<Rightarrow> ('v, 'r) constraint \<Rightarrow> bool"
  areAdjacent :: "'r \<Rightarrow> 'r \<Rightarrow> bool"
  Less :: "('v, 'r) realConstraint \<Rightarrow> ('v, 'r) realConstraint \<Rightarrow> bool"
  rewriteRange :: "string \<Rightarrow> string"
  parseConstraint :: "string \<Rightarrow> 'e + ('v, 'r) constraint"

subsection \<open>sort.Sort on a constraintList\<close>

text \<open>
  \<^verbatim>\<open>sort.Sort(real)\<close> permutes the list in place by swaps, guided by \<^verbatim>\<open>Less\<close> alone. It is
  modelled as the insertion sort that the Go library runs on a short slice: from left to
  right, each element moves left for as long as it is less than its left neighbour. (On a
  longer slice the library sorts by another scheme; by the contract of \<^verbatim>\<open>sort.Sort\<close> the
  result is again an ordered permutation, but elements that \<^verbatim>\<open>Less\<close> does not order may come
  out in another order.)

  \<open>moveLeft lt x front\<close> takes the sorted front part in reverse, nearest neighbour first.
\<close>

fun moveLeft :: "('a \<Rightarrow> 'a \<Rightarrow> bool) \<Rightarrow> 'a \<Rightarrow> 'a list \<Rightarrow> 'a list" where
  "moveLeft lt x [] = [x]"
| "moveLeft lt x (y # ys) = (if lt x y then y # moveLeft lt x ys else x # y # ys)"

fun sortFrom :: "('a \<Rightarrow> 'a \<Rightarrow> bool) \<Rightarrow> 'a list \<Rightarrow> 'a list \<Rightarrow> 'a list" where
  "sortFrom lt front [] = rev front"
| "sortFrom lt front (x # xs) = sortFrom lt (moveLeft lt x front) xs"

definition sortList :: "('a \<Rightarrow> 'a \<Rightarrow> bool) \<Rightarrow> 'a list \<Rightarrow> 'a list" where
  "sortList lt xs = sortFrom lt [] xs"

section \<open>Intersection\<close>

text \<open>
  The first loop of \<^verbatim>\<open>Intersection\<close> ends in one of three ways: it returns from the
  function at a \<^verbatim>\<open>none\<close>, it panics at an unlisted type, or it runs to the end with the
  list \<^verbatim>\<open>real\<close> built.
\<close>

datatype ('v, 'r) scan =
    Returned "('v, 'r) constraint"
  | Panicked panic
  | Collected "('v, 'r) realConstraint list"

fun intersectionScan ::
  "('v, 'r) realConstraint list \<Rightarrow> ('v, 'r) constraint list \<Rightarrow> ('v, 'r) scan" where
  "intersectionScan real [] = Collected real"
| "intersectionScan real (c # cs) =
     (case c of
        AnyC \<Rightarrow> intersectionScan real cs
      | NoneC \<Rightarrow> Returned c
      | VersionC tc \<Rightarrow> intersectionScan (real @ [VersionR tc]) cs
      | RangeC tc \<Rightarrow> intersectionScan (real @ [RangeR tc]) cs
      | UnionC tc \<Rightarrow> intersectionScan (real @ tc) cs
      | OtherC \<Rightarrow> Panicked UnknownConstraintType)"

text \<open>The second loop: \<^verbatim>\<open>car = car.Intersect(c)\<close>, leaving with \<^verbatim>\<open>None()\<close> at the first empty result.\<close>

fun intersectLoop ::
  "('v, 'r, 'e) collaborators \<Rightarrow> ('v, 'r) constraint \<Rightarrow> ('v, 'r) constraint list
    \<Rightarrow> ('v, 'r) constraint" where
  "intersectLoop env car [] = car"
| "intersectLoop env car (c # cdr) =
     (let car' = Intersect env car c
      in if IsNone car' then NoneC else intersectLoop env car' cdr)"

definition Intersection ::
  "('v, 'r, 'e) collaborators \<Rightarrow> ('v, 'r) constraint list \<Rightarrow> panic + ('v, 'r) constraint" where
  "Intersection env cg =
     (case cg of
        [] \<Rightarrow> Inr NoneC
      | [c] \<Rightarrow> Inr c
      | car # cdr \<Rightarrow>
          (case intersectionScan [] cg of
             Returned c \<Rightarrow> Inr c
           | Panicked p \<Rightarrow> Inl p
           | Collected real \<Rightarrow>
               (let sorted = sortList (Less env) real
                in Inr (intersectLoop env car cdr))))"

section \<open>Union\<close>

text \<open>The first loop of \<^verbatim>\<open>Union\<close>: it returns at an \<^verbatim>\<open>any\<close> and skips every \<^verbatim>\<open>none\<close>.\<close>

fun unionScan ::
  "('v, 'r) realConstraint list \<Rightarrow> ('v, 'r) constraint list \<Rightarrow> ('v, 'r) scan" where
  "unionScan real [] = Collected real"
| "unionScan real (c # cs) =
     (case c of
        AnyC \<Rightarrow> Returned c
      | NoneC \<Rightarrow> unionScan real cs
      | VersionC tc \<Rightarrow> unionScan (real @ [VersionR tc]) cs
      | RangeC tc \<Rightarrow> unionScan (real @ [RangeR tc]) cs
      | UnionC tc \<Rightarrow> unionScan (real @ tc) cs
      | OtherC \<Rightarrow> Panicked UnknownConstraintType)"

text \<open>
  One iteration of the merge loop over the sorted list, on the accumulated \<^verbatim>\<open>nuc\<close> and the
  next member \<^verbatim>\<open>c\<close>. The assignment \<^verbatim>\<open>nuc[len(nuc)-1] = x\<close> is a list update at the last
  index, and \<^verbatim>\<open>append(nuc[:len(nuc)-1], xs...)\<close> is \<open>butlast nuc @ xs\<close>.
\<close>

definition mergeStep ::
  "('v, 'r, 'e) collaborators \<Rightarrow> ('v, 'r) realConstraint list \<Rightarrow> ('v, 'r) realConstraint
    \<Rightarrow> panic + ('v, 'r) realConstraint list" where
  "mergeStep env nuc c =
     (if length nuc = 0 then Inr (nuc @ [c])
      else
        (case nuc ! (length nuc - 1) of
           VersionR lt \<Rightarrow>
             (case c of
                VersionR ct \<Rightarrow>
                  if \<not> Equal env lt ct then Inr (nuc @ [VersionR ct]) else Inr nuc
              | RangeR ct \<Rightarrow> Inr (nuc @ [c]))
         | RangeR lt \<Rightarrow>
             (case c of
                VersionR ct \<Rightarrow>
                  (let c2 = rangeUnion env lt (VersionC ct)
                   in case asReal c2 of
                        Some crc \<Rightarrow> Inr (nuc[length nuc - 1 := crc])
                      | None \<Rightarrow>
                          (case c2 of
                             UnionC members \<Rightarrow> Inr (butlast nuc @ members)
                           | _ \<Rightarrow> Inl TypeAssertionFailed))
              | RangeR ct \<Rightarrow>
                  if rangeMatchesAny env lt (RangeC ct) \<or> areAdjacent env lt ct
                  then
                    (case asReal (rangeUnion env lt (RangeC ct)) of
                       Some merged \<Rightarrow> Inr (nuc[length nuc - 1 := merged])
                     | None \<Rightarrow> Inl TypeAssertionFailed)
                  else Inr (nuc @ [c]))))"

fun mergeLoop ::
  "('v, 'r, 'e) collaborators \<Rightarrow> ('v, 'r) realConstraint list \<Rightarrow> ('v, 'r) realConstraint list
    \<Rightarrow> panic + ('v, 'r) realConstraint list" where
  "mergeLoop env nuc [] = Inr nuc"
| "mergeLoop env nuc (c # cs) =
     (case mergeStep env nuc c of
        Inl p \<Rightarrow> Inl p
      | Inr nuc' \<Rightarrow> mergeLoop env nuc' cs)"

text \<open>\<^verbatim>\<open>Union\<close> (the name \<open>Union\<close> is taken in HOL).\<close>

definition UnionOf ::
  "('v, 'r, 'e) collaborators \<Rightarrow> ('v, 'r) constraint list \<Rightarrow> panic + ('v, 'r) constraint" where
  "UnionOf env cg =
     (case cg of
        [] \<Rightarrow> Inr NoneC
      | [c] \<Rightarrow> Inr c
      | _ \<Rightarrow>
          (case unionScan [] cg of
             Returned c \<Rightarrow> Inr c
           | Panicked p \<Rightarrow> Inl p
           | Collected real \<Rightarrow>
               (case mergeLoop env [] (sortList (Less env) real) of
                  Inl p \<Rightarrow> Inl p
                | Inr nuc \<Rightarrow>
                    if length nuc = 1 then Inr (toConstraint (nuc ! 0))
                    else Inr (UnionC nuc))))"

section \<open>NewConstraint\<close>

text \<open>
  \<^verbatim>\<open>strings.Split(s, sep)\<close> for a non-empty separator: the pieces between the
  non-overlapping occurrences of \<^verbatim>\<open>sep\<close>, found from the left. (Both calls in
  constraints.go pass a non-empty separator.)
\<close>

function splitAcc :: "string \<Rightarrow> string \<Rightarrow> string \<Rightarrow> string list" where
  "splitAcc sep cur [] = [cur]"
| "splitAcc sep cur (c # cs) =
     (if sep \<noteq> [] \<and> prefix sep (c # cs)
      then cur # splitAcc sep [] (drop (length sep) (c # cs))
      else splitAcc sep (cur @ [c]) cs)"
  by pat_completeness auto
termination
  by (relation "measure (\<lambda>(sep, cur, s). length s)") auto

definition Split :: "string \<Rightarrow> string \<Rightarrow> string list" where
  "Split s sep = splitAcc sep [] s"

text \<open>
  The package variables \<^verbatim>\<open>cacheConstraints\<close> and \<^verbatim>\<open>constraintCache\<close> are the state that
  \<^verbatim>\<open>NewConstraint\<close> reads and writes.
\<close>

record ('v, 'r) cache_state =
  cacheConstraints :: bool
  constraintCache :: "string \<rightharpoonup> ('v, 'r) constraint"

text \<open>
  What a call comes to: a panic, the return \<^verbatim>\<open>nil, err\<close> (\<open>Failed err\<close>), or the return
  \<^verbatim>\<open>final, nil\<close> (\<open>Done final\<close>).
\<close>

datatype ('e, 'a) outcome = Panic panic | Failed 'e | Done 'a

text \<open>The inner loop over the members of one OR-group, filling \<^verbatim>\<open>result\<close> from the left.\<close>

fun parseLoop ::
  "('v, 'r, 'e) collaborators \<Rightarrow> ('v, 'r) constraint list \<Rightarrow> string list
    \<Rightarrow> 'e + ('v, 'r) constraint list" where
  "parseLoop env result [] = Inr result"
| "parseLoop env result (s # cs) =
     (case parseConstraint env s of
        Inl err \<Rightarrow> Inl err
      | Inr pc \<Rightarrow> parseLoop env (result @ [pc]) cs)"

text \<open>The outer loop over the OR-groups, filling \<^verbatim>\<open>or\<close> from the left.\<close>

fun orLoop ::
  "('v, 'r, 'e) collaborators \<Rightarrow> ('v, 'r) constraint list \<Rightarrow> string list
    \<Rightarrow> ('e, ('v, 'r) constraint list) outcome" where
  "orLoop env orc [] = Done orc"
| "orLoop env orc (v # ors) =
     (case parseLoop env [] (Split v '','') of
        Inl err \<Rightarrow> Failed err
      | Inr result \<Rightarrow>
          (case Intersection env result of
             Inl p \<Rightarrow> Panic p
           | Inr c \<Rightarrow> orLoop env (orc @ [c]) ors))"

definition NewConstraint ::
  "('v, 'r, 'e) collaborators \<Rightarrow> ('v, 'r) cache_state \<Rightarrow> string
    \<Rightarrow> ('e, ('v, 'r) constraint) outcome \<times> ('v, 'r) cache_state" where
  "NewConstraint env st inp =
     (case (if cacheConstraints st then constraintCache st inp else None) of
        Some final \<Rightarrow> (Done final, st)
      | None \<Rightarrow>
          (case orLoop env [] (Split (rewriteRange env inp) ''||'') of
             Panic p \<Rightarrow> (Panic p, st)
           | Failed err \<Rightarrow> (Failed err, st)
           | Done orc \<Rightarrow>
               (case UnionOf env orc of
                  Inl p \<Rightarrow> (Panic p, st)
                | Inr final \<Rightarrow>
                    (Done final,
                     if cacheConstraints st
                     then st\<lparr>constraintCache := (constraintCache st)(inp \<mapsto> final)\<rparr>
                     else st))))"

section \<open>The specification's own formulations\<close>

text \<open>
  The spec's description of the general case of Intersection: a left-to-right pairwise fold
  of the input with each pair's Intersect operation, which stops with Empty as soon as a
  partial result is Empty.
\<close>

fun foldPairs ::
  "(('v, 'r) constraint \<Rightarrow> ('v, 'r) constraint \<Rightarrow> ('v, 'r) constraint)
    \<Rightarrow> ('v, 'r) constraint \<Rightarrow> ('v, 'r) constraint list \<Rightarrow> ('v, 'r) constraint" where
  "foldPairs f acc [] = acc"
| "foldPairs f acc (c # cs) = (if f acc c = NoneC then NoneC else foldPairs f (f acc c) cs)"

definition pairwiseFold ::
  "(('v, 'r) constraint \<Rightarrow> ('v, 'r) constraint \<Rightarrow> ('v, 'r) constraint)
    \<Rightarrow> ('v, 'r) constraint list \<Rightarrow> ('v, 'r) constraint" where
  "pairwiseFold f cg = (case cg of [] \<Rightarrow> NoneC | c # cs \<Rightarrow> foldPairs f c cs)"

text \<open>
  The spec's procedure for an expression, steps (1) to (6): rewrite, split on \<^verbatim>\<open>||\<close>, split
  each OR-group on \<^verbatim>\<open>,\<close>, parse each member, fold each group with Intersection, fold the
  groups with Union. The first member that fails to parse ends the procedure.
\<close>

fun allDone :: "('e, 'a) outcome list \<Rightarrow> ('e, 'a list) outcome" where
  "allDone [] = Done []"
| "allDone (x # xs) =
     (case x of
        Panic p \<Rightarrow> Panic p
      | Failed e \<Rightarrow> Failed e
      | Done a \<Rightarrow>
          (case allDone xs of
             Panic p \<Rightarrow> Panic p
           | Failed e \<Rightarrow> Failed e
           | Done as \<Rightarrow> Done (a # as)))"

definition parseMember ::
  "('v, 'r, 'e) collaborators \<Rightarrow> string \<Rightarrow> ('e, ('v, 'r) constraint) outcome" where
  "parseMember env s = (case parseConstraint env s of Inl err \<Rightarrow> Failed err | Inr pc \<Rightarrow> Done pc)"

definition andGroup ::
  "('v, 'r, 'e) collaborators \<Rightarrow> string \<Rightarrow> ('e, ('v, 'r) constraint) outcome" where
  "andGroup env v =
     (case allDone (map (parseMember env) (Split v '','')) of
        Panic p \<Rightarrow> Panic p
      | Failed e \<Rightarrow> Failed e
      | Done members \<Rightarrow>
          (case Intersection env members of Inl p \<Rightarrow> Panic p | Inr c \<Rightarrow> Done c))"

definition pipeline ::
  "('v, 'r, 'e) collaborators \<Rightarrow> string \<Rightarrow> ('e, ('v, 'r) constraint) outcome" where
  "pipeline env inp =
     (case allDone (map (andGroup env) (Split (rewriteRange env inp) ''||'')) of
        Panic p \<Rightarrow> Panic p
      | Failed e \<Rightarrow> Failed e
      | Done groups \<Rightarrow>
          (case UnionOf env groups of Inl p \<Rightarrow> Panic p | Inr c \<Rightarrow> Done c))"

text \<open>
  The cache is only ever written by \<^verbatim>\<open>NewConstraint\<close>; in every state that the program
  reaches, an entry holds what the procedure gives for its key.
\<close>

definition cacheInv :: "('v, 'r, 'e) collaborators \<Rightarrow> ('v, 'r) cache_state \<Rightarrow> bool" where
  "cacheInv env st = (\<forall>s c. constraintCache st s = Some c \<longrightarrow> pipeline env s = Done c)"

text \<open>Some member of some OR-group of the expression fails to parse.\<close>

definition memberFails :: "('v, 'r, 'e) collaborators \<Rightarrow> string \<Rightarrow> bool" where
  "memberFails env inp =
     list_ex (\<lambda>v. list_ex (\<lambda>s. isl (parseConstraint env s)) (Split v '',''))
       (Split (rewriteRange env inp) ''||'')"

text \<open>
  Modelled from the spec: the token parser is declared outside constraints.go; by the spec
  it converts a token into a Point or a Range, or fails. What is used of this is that a
  successful parse gives a constraint of the five variants.
\<close>

definition parsesToVariants :: "('v, 'r, 'e) collaborators \<Rightarrow> bool" where
  "parsesToVariants env = (\<forall>s. parseConstraint env s \<noteq> Inr OtherC)"

section \<open>Matching, and what the collaborators are to guarantee\<close>

text \<open>
  Modelled from the spec: the \<^verbatim>\<open>Matches\<close> methods are declared outside constraints.go.
  By the spec's table of variants, Universal matches every version, Empty none, a Point
  exactly its version, a Range the versions within its bounds (\<open>rm\<close>, the matching of the
  range type), and a UnionSet the versions that one of its members matches.
\<close>

fun realMatches :: "('r \<Rightarrow> 'v \<Rightarrow> bool) \<Rightarrow> ('v, 'r) realConstraint \<Rightarrow> 'v \<Rightarrow> bool" where
  "realMatches rm (VersionR p) v = (v = p)"
| "realMatches rm (RangeR r) v = rm r v"

fun Matches :: "('r \<Rightarrow> 'v \<Rightarrow> bool) \<Rightarrow> ('v, 'r) constraint \<Rightarrow> 'v \<Rightarrow> bool" where
  "Matches rm AnyC v = True"
| "Matches rm NoneC v = False"
| "Matches rm (VersionC p) v = (v = p)"
| "Matches rm (RangeC r) v = rm r v"
| "Matches rm (UnionC members) v = list_ex (\<lambda>m. realMatches rm m v) members"
| "Matches rm OtherC v = False"

text \<open>
  A constraint of the five variants whose ranges all satisfy \<open>okr\<close>, the invariant of the
  range type.
\<close>

fun realOk :: "('r \<Rightarrow> bool) \<Rightarrow> ('v, 'r) realConstraint \<Rightarrow> bool" where
  "realOk okr (VersionR p) = True"
| "realOk okr (RangeR r) = okr r"

fun wellFormed :: "('r \<Rightarrow> bool) \<Rightarrow> ('v, 'r) constraint \<Rightarrow> bool" where
  "wellFormed okr AnyC = True"
| "wellFormed okr NoneC = True"
| "wellFormed okr (VersionC p) = True"
| "wellFormed okr (RangeC r) = okr r"
| "wellFormed okr (UnionC members) = list_all (realOk okr) members"
| "wellFormed okr OtherC = False"

text \<open>
  Modelled from the spec: the results that \<^verbatim>\<open>rangeConstraint.Union\<close> may have where
  \<^verbatim>\<open>Union\<close> asserts their type. The union of a Range and a Point is a Point, a Range or a
  UnionSet, and the union of two Ranges that overlap or are adjacent is their merged Range.
\<close>

definition unionShapes :: "('v, 'r, 'e) collaborators \<Rightarrow> bool" where
  "unionShapes env =
     ((\<forall>r p. case rangeUnion env r (VersionC p) of
                VersionC _ \<Rightarrow> True | RangeC _ \<Rightarrow> True | UnionC _ \<Rightarrow> True | _ \<Rightarrow> False) \<and>
      (\<forall>r1 r2. rangeMatchesAny env r1 (RangeC r2) \<or> areAdjacent env r1 r2 \<longrightarrow>
                asReal (rangeUnion env r1 (RangeC r2)) \<noteq> None))"

text \<open>
  Modelled from the spec: the semantics of the pairwise operations, which are declared
  outside constraints.go. \<^verbatim>\<open>Equal\<close> holds of equal versions only; \<^verbatim>\<open>Intersect\<close> gives a
  constraint that matches what both operands match; \<^verbatim>\<open>rangeConstraint.Union\<close> gives a
  constraint that matches what one of the operands matches, of the shapes above; and all
  of them keep the invariant of the range type.
\<close>

definition equalSound :: "('v, 'r, 'e) collaborators \<Rightarrow> bool" where
  "equalSound env = (\<forall>a b. Equal env a b \<longrightarrow> a = b)"

definition intersectSound ::
  "('v, 'r, 'e) collaborators \<Rightarrow> ('r \<Rightarrow> 'v \<Rightarrow> bool) \<Rightarrow> ('r \<Rightarrow> bool) \<Rightarrow> bool" where
  "intersectSound env rm okr =
     (\<forall>a b. wellFormed okr a \<and> wellFormed okr b \<longrightarrow>
        wellFormed okr (Intersect env a b) \<and>
        (\<forall>v. Matches rm (Intersect env a b) v = (Matches rm a v \<and> Matches rm b v)))"

definition rangeUnionSound ::
  "('v, 'r, 'e) collaborators \<Rightarrow> ('r \<Rightarrow> 'v \<Rightarrow> bool) \<Rightarrow> ('r \<Rightarrow> bool) \<Rightarrow> bool" where
  "rangeUnionSound env rm okr =
     ((\<forall>r p. okr r \<longrightarrow>
        wellFormed okr (rangeUnion env r (VersionC p)) \<and>
        (\<forall>v. Matches rm (rangeUnion env r (VersionC p)) v = (rm r v \<or> v = p))) \<and>
      (\<forall>r1 r2. okr r1 \<and> okr r2 \<and>
                (rangeMatchesAny env r1 (RangeC r2) \<or> areAdjacent env r1 r2) \<longrightarrow>
        wellFormed okr (rangeUnion env r1 (RangeC r2)) \<and>
        (\<forall>v. Matches rm (rangeUnion env r1 (RangeC r2)) v = (rm r1 v \<or> rm r2 v))))"

text \<open>Semantic equivalence of two results: both are values, and they match the same versions.\<close>

definition equivalent ::
  "('r \<Rightarrow> 'v \<Rightarrow> bool) \<Rightarrow> panic + ('v, 'r) constraint \<Rightarrow> panic + ('v, 'r) constraint \<Rightarrow> bool" where
  "equivalent rm x y =
     (case (x, y) of
        (Inr a, Inr b) \<Rightarrow> (\<forall>v. Matches rm a v = Matches rm b v)
      | _ \<Rightarrow> False)"

text \<open>Feeding the result of one operation to the next, a panic passing through.\<close>

definition andThen ::
  "panic + ('v, 'r) constraint \<Rightarrow> (('v, 'r) constraint \<Rightarrow> panic + ('v, 'r) constraint)
    \<Rightarrow> panic + ('v, 'r) constraint" where
  "andThen x f = (case x of Inl p \<Rightarrow> Inl p | Inr c \<Rightarrow> f c)"

section \<open>A model of versions and ranges\<close>

text \<open>
  Modelled from the spec: \<^verbatim>\<open>Version\<close> is declared outside constraints.go. The spec takes
  it as a totally ordered value with equality; here it is the triple of major, minor and
  patch number in the lexicographic order.
\<close>

type_synonym version = "nat \<times> nat \<times> nat"

text \<open>
  Modelled from the spec: \<^verbatim>\<open>rangeConstraint\<close> is declared outside constraints.go. By the
  spec, a Range is a pair of a lower and an upper bound, each inclusive, exclusive or absent,
  and matches the versions within them.
\<close>

datatype 'a bound = Unbounded | Incl 'a | Excl 'a

datatype rangeConstraint = Bounds (lower: "version bound") (upper: "version bound")

fun aboveLower :: "'a::linorder bound \<Rightarrow> 'a \<Rightarrow> bool" where
  "aboveLower Unbounded v = True"
| "aboveLower (Incl l) v = (l \<le> v)"
| "aboveLower (Excl l) v = (l < v)"

fun belowUpper :: "'a::linorder bound \<Rightarrow> 'a \<Rightarrow> bool" where
  "belowUpper Unbounded v = True"
| "belowUpper (Incl u) v = (v \<le> u)"
| "belowUpper (Excl u) v = (v < u)"

definition rangeMatches :: "rangeConstraint \<Rightarrow> version \<Rightarrow> bool" where
  "rangeMatches r v = (aboveLower (lower r) v \<and> belowUpper (upper r) v)"

text \<open>
  Modelled from the spec: the invariant that the lower bound of a Range, if present, is
  strictly less than its upper bound, if present, and the construction that reduces an
  inverted or zero-width range to Empty; the zero-width range with both bounds inclusive is
  the Point.
\<close>

fun validBounds :: "'a::linorder bound \<Rightarrow> 'a bound \<Rightarrow> bool" where
  "validBounds Unbounded _ = True"
| "validBounds _ Unbounded = True"
| "validBounds (Incl l) (Incl u) = (l < u)"
| "validBounds (Incl l) (Excl u) = (l < u)"
| "validBounds (Excl l) (Incl u) = (l < u)"
| "validBounds (Excl l) (Excl u) = (l < u)"

definition validRange :: "rangeConstraint \<Rightarrow> bool" where
  "validRange r = validBounds (lower r) (upper r)"

definition mkRange :: "version bound \<Rightarrow> version bound \<Rightarrow> (version, rangeConstraint) constraint" where
  "mkRange lo hi =
     (if validBounds lo hi then RangeC (Bounds lo hi)
      else case (lo, hi) of
             (Incl l, Incl u) \<Rightarrow> if l = u then VersionC l else NoneC
           | _ \<Rightarrow> NoneC)"

text \<open>
  Modelled from the spec: the intersection of two Ranges takes the tightest of the two
  lower bounds and the tightest of the two upper bounds; their merge takes the loosest.
\<close>

fun tightestLower :: "'a::linorder bound \<Rightarrow> 'a bound \<Rightarrow> 'a bound" where
  "tightestLower Unbounded b = b"
| "tightestLower a Unbounded = a"
| "tightestLower (Incl x) (Incl y) = Incl (max x y)"
| "tightestLower (Incl x) (Excl y) = (if y < x then Incl x else Excl y)"
| "tightestLower (Excl x) (Incl y) = (if x < y then Incl y else Excl x)"
| "tightestLower (Excl x) (Excl y) = Excl (max x y)"

fun tightestUpper :: "'a::linorder bound \<Rightarrow> 'a bound \<Rightarrow> 'a bound" where
  "tightestUpper Unbounded b = b"
| "tightestUpper a Unbounded = a"
| "tightestUpper (Incl x) (Incl y) = Incl (min x y)"
| "tightestUpper (Incl x) (Excl y) = (if x < y then Incl x else Excl y)"
| "tightestUpper (Excl x) (Incl y) = (if y < x then Incl y else Excl x)"
| "tightestUpper (Excl x) (Excl y) = Excl (min x y)"

fun loosestLower :: "'a::linorder bound \<Rightarrow> 'a bound \<Rightarrow> 'a bound" where
  "loosestLower Unbounded b = Unbounded"
| "loosestLower a Unbounded = Unbounded"
| "loosestLower (Incl x) (Incl y) = Incl (min x y)"
| "loosestLower (Incl x) (Excl y) = (if y < x then Excl y else Incl x)"
| "loosestLower (Excl x) (Incl y) = (if x < y then Excl x else Incl y)"
| "loosestLower (Excl x) (Excl y) = Excl (min x y)"

fun loosestUpper :: "'a::linorder bound \<Rightarrow> 'a bound \<Rightarrow> 'a bound" where
  "loosestUpper Unbounded b = Unbounded"
| "loosestUpper a Unbounded = Unbounded"
| "loosestUpper (Incl x) (Incl y) = Incl (max x y)"
| "loosestUpper (Incl x) (Excl y) = (if x < y then Excl y else Incl x)"
| "loosestUpper (Excl x) (Incl y) = (if y < x then Excl x else Incl y)"
| "loosestUpper (Excl x) (Excl y) = Excl (max x y)"

text \<open>
  Modelled from the spec: the pairwise \<^verbatim>\<open>Intersect\<close>, declared outside constraints.go. Two
  Points: Empty unless equal, else that Point. A Point and a Range: the Point if within
  bounds, else Empty. Two Ranges: the overlapping sub-interval, or Empty. Universal is the
  identity and Empty absorbs; a UnionSet is flattened to its members, which are intersected
  one by one.
\<close>

fun realIntersect ::
  "(version, rangeConstraint) realConstraint \<Rightarrow> (version, rangeConstraint) realConstraint
    \<Rightarrow> (version, rangeConstraint) constraint" where
  "realIntersect (VersionR a) (VersionR b) = (if a = b then VersionC a else NoneC)"
| "realIntersect (VersionR a) (RangeR r) = (if rangeMatches r a then VersionC a else NoneC)"
| "realIntersect (RangeR r) (VersionR a) = (if rangeMatches r a then VersionC a else NoneC)"
| "realIntersect (RangeR r1) (RangeR r2) =
     mkRange (tightestLower (lower r1) (lower r2)) (tightestUpper (upper r1) (upper r2))"

fun membersOf :: "('v, 'r) constraint \<Rightarrow> ('v, 'r) realConstraint list" where
  "membersOf (VersionC v) = [VersionR v]"
| "membersOf (RangeC r) = [RangeR r]"
| "membersOf (UnionC members) = members"
| "membersOf _ = []"

fun pack :: "('v, 'r) realConstraint list \<Rightarrow> ('v, 'r) constraint" where
  "pack [] = NoneC"
| "pack [m] = toConstraint m"
| "pack members = UnionC members"

fun specIntersect ::
  "(version, rangeConstraint) constraint \<Rightarrow> (version, rangeConstraint) constraint \<Rightarrow> (version, rangeConstraint) constraint" where
  "specIntersect NoneC b = NoneC"
| "specIntersect a NoneC = NoneC"
| "specIntersect AnyC b = b"
| "specIntersect a AnyC = a"
| "specIntersect OtherC b = OtherC"
| "specIntersect a OtherC = OtherC"
| "specIntersect a b =
     pack (concat (map (\<lambda>m. concat (map (\<lambda>n. membersOf (realIntersect m n)) (membersOf b)))
                       (membersOf a)))"

text \<open>
  Modelled from the spec: \<^verbatim>\<open>MatchesAny\<close>, declared outside constraints.go, reports whether
  the intersection of the two constraints is non-Empty.
\<close>

definition specMatchesAny :: "rangeConstraint \<Rightarrow> (version, rangeConstraint) constraint \<Rightarrow> bool" where
  "specMatchesAny r c = (\<not> IsNone (specIntersect (RangeC r) c))"

text \<open>
  Modelled from the spec: \<^verbatim>\<open>areAdjacent\<close>, declared outside constraints.go. Two bounds are
  adjacent when the upper bound of one range equals the lower bound of the other and at
  least one of the two is inclusive, or when the two bounds are immediate successors in the
  version ordering: no version lies strictly between them.
\<close>

fun nextVersion :: "version \<Rightarrow> version" where
  "nextVersion (major, minor, patch) = (major, minor, Suc patch)"

fun touches :: "version bound \<Rightarrow> version bound \<Rightarrow> bool" where
  "touches (Incl u) (Incl l) = (u = l \<or> nextVersion u = l)"
| "touches (Incl u) (Excl l) = (u = l)"
| "touches (Excl u) (Incl l) = (u = l)"
| "touches _ _ = False"

definition specAreAdjacent :: "rangeConstraint \<Rightarrow> rangeConstraint \<Rightarrow> bool" where
  "specAreAdjacent r1 r2 =
     (touches (upper r1) (lower r2) \<or> touches (upper r2) (lower r1))"

text \<open>
  Modelled from the spec: the order of \<^verbatim>\<open>constraintList\<close>, declared outside
  constraints.go: ascending by effective lower bound, where the position of a Point is its
  own value and a Range without lower bound comes first.
\<close>

fun lowerKey :: "(version, rangeConstraint) realConstraint \<Rightarrow> version option" where
  "lowerKey (VersionR v) = Some v"
| "lowerKey (RangeR r) =
     (case lower r of Unbounded \<Rightarrow> None | Incl l \<Rightarrow> Some l | Excl l \<Rightarrow> Some l)"

fun specLess ::
  "(version, rangeConstraint) realConstraint \<Rightarrow> (version, rangeConstraint) realConstraint \<Rightarrow> bool" where
  "specLess a b =
     (case (lowerKey a, lowerKey b) of
        (None, None) \<Rightarrow> False
      | (None, Some y) \<Rightarrow> True
      | (Some x, None) \<Rightarrow> False
      | (Some x, Some y) \<Rightarrow> x < y)"

text \<open>
  Modelled from the spec: \<^verbatim>\<open>rangeConstraint.Union\<close>, declared outside constraints.go. A
  Point that lies inside the Range or is adjacent to it is merged into a widened Range; two
  Ranges that overlap or are adjacent are merged into one Range; otherwise the result is the
  UnionSet of the two, the Range first when the other is a Point (as the comment in
  \<^verbatim>\<open>Union\<close> says). \<^verbatim>\<open>Union\<close> passes Points and Ranges only; Universal absorbs, Empty is the
  identity, and the members of a UnionSet are left unmerged behind the Range.
\<close>

definition widen :: "rangeConstraint \<Rightarrow> version \<Rightarrow> (version, rangeConstraint) constraint" where
  "widen r p =
     (if rangeMatches r p then RangeC r
      else if touches (upper r) (Incl p) then RangeC (Bounds (lower r) (Incl p))
      else if touches (Incl p) (lower r) then RangeC (Bounds (Incl p) (upper r))
      else UnionC [RangeR r, VersionR p])"

fun specRangeUnion :: "rangeConstraint \<Rightarrow> (version, rangeConstraint) constraint \<Rightarrow> (version, rangeConstraint) constraint" where
  "specRangeUnion r AnyC = AnyC"
| "specRangeUnion r NoneC = RangeC r"
| "specRangeUnion r (VersionC p) = widen r p"
| "specRangeUnion r (RangeC r2) =
     (if specMatchesAny r (RangeC r2) \<or> specAreAdjacent r r2
      then RangeC (Bounds (loosestLower (lower r) (lower r2)) (loosestUpper (upper r) (upper r2)))
      else if specLess (RangeR r2) (RangeR r) then UnionC [RangeR r2, RangeR r]
      else UnionC [RangeR r, RangeR r2])"
| "specRangeUnion r (UnionC members) = UnionC (RangeR r # members)"
| "specRangeUnion r OtherC = OtherC"

section \<open>An instance of the collaborators\<close>

text \<open>
  The instance used in the closed examples: the operations of the model above, together with
  stand-ins for the two textual collaborators. The hyphen-range rewrite leaves a string
  without a hyphen range as it is, and the examples have none; the token parser is a table
  of the few tokens that the examples use, and rejects every other string with the string
  itself as its error.
\<close>

definition exampleTokens :: "(string \<times> (version, rangeConstraint) constraint) list" where
  "exampleTokens =
     [(''1.2.3'', VersionC (1, 2, 3)),
      (''>=1.0.0'', RangeC (Bounds (Incl (1, 0, 0)) Unbounded)),
      (''<2.0.0'', RangeC (Bounds Unbounded (Excl (2, 0, 0)))),
      (''>=2.0.0'', RangeC (Bounds (Incl (2, 0, 0)) Unbounded)),
      (''<3.0.0'', RangeC (Bounds Unbounded (Excl (3, 0, 0))))]"

definition exampleParse :: "string \<Rightarrow> string + (version, rangeConstraint) constraint" where
  "exampleParse s = (case map_of exampleTokens s of None \<Rightarrow> Inl s | Some c \<Rightarrow> Inr c)"

definition exampleEnv :: "(version, rangeConstraint, string) collaborators" where
  "exampleEnv =
     \<lparr>Intersect = specIntersect,
      Equal = (\<lambda>a b. a = b),
      rangeUnion = specRangeUnion,
      rangeMatchesAny = specMatchesAny,
      areAdjacent = specAreAdjacent,
      Less = specLess,
      rewriteRange = (\<lambda>s. s),
      parseConstraint = exampleParse\<rparr>"

definition emptyCache :: "bool \<Rightarrow> (version, rangeConstraint) cache_state" where
  "emptyCache enabled = \<lparr>cacheConstraints = enabled, constraintCache = Map.empty\<rparr>"

section \<open>Edge cases and the pairwise fold\<close>

lemma intersectionScan_NoneC:
  "NoneC \<in> set cg \<Longrightarrow> OtherC \<notin> set cg \<Longrightarrow> intersectionScan real cg = Returned NoneC"
  by (induction cg arbitrary: real) (auto split: constraint.splits)

text \<open>
  C5: \<^verbatim>\<open>Intersection\<close> of no constraint is Empty, of one constraint is that constraint, and
  of any sequence of constraints of the five variants that holds an Empty is Empty.
\<close>

theorem Intersection_edge_cases:
  "Intersection env [] = Inr NoneC \<and>
   Intersection env [c] = Inr c \<and>
   (NoneC \<in> set cg \<and> OtherC \<notin> set cg \<longrightarrow> Intersection env cg = Inr NoneC)"
proof (intro conjI impI)
  show "Intersection env [] = Inr NoneC" by (simp add: Intersection_def)
  show "Intersection env [c] = Inr c" by (simp add: Intersection_def)
  assume h: "NoneC \<in> set cg \<and> OtherC \<notin> set cg"
  show "Intersection env cg = Inr NoneC"
  proof (cases cg)
    case Nil
    with h show ?thesis by simp
  next
    case (Cons a as)
    show ?thesis
    proof (cases as)
      case Nil
      with Cons h show ?thesis by (simp add: Intersection_def)
    next
      case (Cons b bs)
      have "intersectionScan [] cg = Returned NoneC"
        using h by (simp add: intersectionScan_NoneC)
      with \<open>cg = a # as\<close> Cons show ?thesis by (simp add: Intersection_def)
    qed
  qed
qed

lemma unionScan_AnyC:
  "AnyC \<in> set cg \<Longrightarrow> OtherC \<notin> set cg \<Longrightarrow> unionScan real cg = Returned AnyC"
  by (induction cg arbitrary: real) (auto split: constraint.splits)

lemma intersectionScan_Collected:
  "NoneC \<notin> set cg \<Longrightarrow> OtherC \<notin> set cg \<Longrightarrow> \<exists>real'. intersectionScan real cg = Collected real'"
  by (induction cg arbitrary: real) (auto split: constraint.splits)

lemma intersectLoop_foldPairs:
  "intersectLoop env car cdr = foldPairs (Intersect env) car cdr"
  by (induction cdr arbitrary: car) (auto simp: IsNone_def Let_def split: constraint.splits)

lemma foldPairs_NoneC:
  assumes "\<forall>x. f NoneC x = NoneC \<and> f x NoneC = NoneC"
  shows "NoneC \<in> set (car # cdr) \<Longrightarrow> foldPairs f car cdr = NoneC"
proof (induction cdr arbitrary: car)
  case Nil
  then show ?case by simp
next
  case (Cons c cs)
  show ?case
  proof (cases "f car c = NoneC")
    case True
    then show ?thesis by simp
  next
    case False
    with assms have "car \<noteq> NoneC" "c \<noteq> NoneC" by auto
    with Cons.prems have "NoneC \<in> set (f car c # cs)" by simp
    then have "foldPairs f (f car c) cs = NoneC" by (rule Cons.IH)
    with False show ?thesis by simp
  qed
qed

lemma Intersection_sort_unused:
  "Intersection (env\<lparr>Less := lt\<rparr>) cg = Intersection env cg"
proof -
  have "intersectLoop (env\<lparr>Less := lt\<rparr>) car cdr = intersectLoop env car cdr" for car cdr
    by (induction cdr arbitrary: car) (simp_all add: Let_def)
  then show ?thesis
    by (simp add: Intersection_def Let_def split: list.splits scan.splits)
qed

text \<open>
  C2: for an input of two or more constraints of the five variants, \<^verbatim>\<open>Intersection\<close> returns
  the left-to-right pairwise fold of the input as it was passed, stopping with Empty at the
  first Empty partial result, given that Empty absorbs in the pairwise \<^verbatim>\<open>Intersect\<close> (as the
  spec's table of variants says); and the result is the same whatever the order used for
  the sorted auxiliary list.
\<close>

theorem Intersection_is_pairwise_fold:
  assumes "2 \<le> length cg" and "OtherC \<notin> set cg"
    and "\<forall>x. Intersect env NoneC x = NoneC \<and> Intersect env x NoneC = NoneC"
  shows "Intersection env cg = Inr (pairwiseFold (Intersect env) cg) \<and>
         (\<forall>lt. Intersection (env\<lparr>Less := lt\<rparr>) cg = Intersection env cg)"
proof
  from assms(1) obtain car c cdr where cg: "cg = car # c # cdr"
    by (cases cg; cases "tl cg") auto
  show "Intersection env cg = Inr (pairwiseFold (Intersect env) cg)"
  proof (cases "NoneC \<in> set cg")
    case True
    then have "intersectionScan [] cg = Returned NoneC"
      using assms(2) by (simp add: intersectionScan_NoneC)
    moreover have "foldPairs (Intersect env) car (c # cdr) = NoneC"
      using foldPairs_NoneC [OF assms(3)] True cg by blast
    ultimately show ?thesis
      by (simp add: Intersection_def pairwiseFold_def cg)
  next
    case False
    then obtain real' where "intersectionScan [] cg = Collected real'"
      using assms(2) intersectionScan_Collected by blast
    then show ?thesis
      by (simp add: Intersection_def pairwiseFold_def cg intersectLoop_foldPairs del: foldPairs.simps intersectionScan.simps)
  qed
  show "\<forall>lt. Intersection (env\<lparr>Less := lt\<rparr>) cg = Intersection env cg"
    by (simp add: Intersection_sort_unused)
qed

lemma specIntersect_NoneC: "\<forall>x. specIntersect NoneC x = NoneC \<and> specIntersect x NoneC = NoneC"
proof
  fix x show "specIntersect NoneC x = NoneC \<and> specIntersect x NoneC = NoneC"
    by (cases x) simp_all
qed

theorem Intersection_is_pairwise_fold_witness:
  "Intersection exampleEnv
     [RangeC (Bounds (Incl (1, 0, 0)) (Excl (2, 0, 0))), AnyC,
      RangeC (Bounds (Incl (1, 5, 0)) (Excl (3, 0, 0)))]
   = Inr (pairwiseFold specIntersect
     [RangeC (Bounds (Incl (1, 0, 0)) (Excl (2, 0, 0))), AnyC,
      RangeC (Bounds (Incl (1, 5, 0)) (Excl (3, 0, 0)))]) \<and>
   pairwiseFold specIntersect
     [RangeC (Bounds (Incl (1, 0, 0)) (Excl (2, 0, 0))), AnyC,
      RangeC (Bounds (Incl (1, 5, 0)) (Excl (3, 0, 0)))]
   = RangeC (Bounds (Incl (1, 5, 0)) (Excl (2, 0, 0)))"
proof -
  have "\<forall>x. Intersect exampleEnv NoneC x = NoneC \<and> Intersect exampleEnv x NoneC = NoneC"
    using specIntersect_NoneC by (simp add: exampleEnv_def)
  then show ?thesis
    using Intersection_is_pairwise_fold [of
      "[RangeC (Bounds (Incl (1, 0, 0)) (Excl (2, 0, 0))), AnyC,
        RangeC (Bounds (Incl (1, 5, 0)) (Excl (3, 0, 0)))]" exampleEnv]
    by (simp add: exampleEnv_def pairwiseFold_def mkRange_def)
qed

theorem Intersection_edge_cases_witness:
  "NoneC \<in> set [AnyC, NoneC, VersionC (1, 2, 3)] \<and>
   OtherC \<notin> set [AnyC, NoneC, VersionC (1, 2, 3)] \<and>
   Intersection exampleEnv [AnyC, NoneC, VersionC (1, 2, 3)] = Inr NoneC \<and>
   Intersection exampleEnv [VersionC (1, 2, 3)] = Inr (VersionC (1, 2, 3))"
  using Intersection_edge_cases
    [of exampleEnv "VersionC (1, 2, 3)" "[AnyC, NoneC, VersionC (1, 2, 3)]"]
  by simp

text \<open>
  C6: \<^verbatim>\<open>Union\<close> of no constraint is Empty, of one constraint is that constraint, and of any
  sequence of constraints of the five variants that holds a Universal is Universal.
\<close>

theorem Union_edge_cases:
  "UnionOf env [] = Inr NoneC \<and>
   UnionOf env [c] = Inr c \<and>
   (AnyC \<in> set cg \<and> OtherC \<notin> set cg \<longrightarrow> UnionOf env cg = Inr AnyC)"
proof (intro conjI impI)
  show "UnionOf env [] = Inr NoneC" by (simp add: UnionOf_def)
  show "UnionOf env [c] = Inr c" by (simp add: UnionOf_def)
  assume h: "AnyC \<in> set cg \<and> OtherC \<notin> set cg"
  then have scan: "unionScan [] cg = Returned AnyC"
    by (simp add: unionScan_AnyC)
  show "UnionOf env cg = Inr AnyC"
  proof (cases cg)
    case Nil
    with h show ?thesis by simp
  next
    case (Cons a as)
    with h scan show ?thesis
      by (cases as) (auto simp: UnionOf_def)
  qed
qed

theorem Union_edge_cases_witness:
  "AnyC \<in> set [VersionC (1, 2, 3), NoneC, AnyC] \<and>
   OtherC \<notin> set [VersionC (1, 2, 3), NoneC, AnyC] \<and>
   UnionOf exampleEnv [VersionC (1, 2, 3), NoneC, AnyC] = Inr AnyC \<and>
   UnionOf exampleEnv [VersionC (1, 2, 3)] = Inr (VersionC (1, 2, 3))"
  using Union_edge_cases
    [of exampleEnv "VersionC (1, 2, 3)" "[VersionC (1, 2, 3), NoneC, AnyC]"]
  by simp

section \<open>The steps of the merge loop of Union\<close>

lemma last_index: "nuc \<noteq> [] \<Longrightarrow> nuc ! (length nuc - Suc 0) = last nuc"
  by (simp add: last_conv_nth)

lemma update_last: "nuc \<noteq> [] \<Longrightarrow> nuc[length nuc - Suc 0 := x] = butlast nuc @ [x]"
  by (induction nuc rule: rev_induct) simp_all

lemma mergeStep_range_range:
  assumes "nuc \<noteq> []" and "last nuc = RangeR lt"
  shows "mergeStep env nuc (RangeR ct) =
     (if rangeMatchesAny env lt (RangeC ct) \<or> areAdjacent env lt ct
      then (case rangeUnion env lt (RangeC ct) of
              VersionC v \<Rightarrow> Inr (butlast nuc @ [VersionR v])
            | RangeC merged \<Rightarrow> Inr (butlast nuc @ [RangeR merged])
            | _ \<Rightarrow> Inl TypeAssertionFailed)
      else Inr (nuc @ [RangeR ct]))"
  using assms
  by (simp add: mergeStep_def last_index update_last split: constraint.splits)

lemma mergeStep_version_range:
  assumes "nuc \<noteq> []" and "last nuc = VersionR lt"
  shows "mergeStep env nuc (RangeR ct) = Inr (nuc @ [RangeR ct])"
  using assms by (simp add: mergeStep_def last_index)

lemma mergeStep_range_version:
  assumes "nuc \<noteq> []" and "last nuc = RangeR lt"
  shows "mergeStep env nuc (VersionR ct) =
     (case rangeUnion env lt (VersionC ct) of
        VersionC v \<Rightarrow> Inr (butlast nuc @ [VersionR v])
      | RangeC merged \<Rightarrow> Inr (butlast nuc @ [RangeR merged])
      | UnionC members \<Rightarrow> Inr (butlast nuc @ members)
      | _ \<Rightarrow> Inl TypeAssertionFailed)"
  using assms
  by (simp add: mergeStep_def last_index update_last Let_def split: constraint.splits)

text \<open>
  C1: in the merge loop, when the last accumulated member is a Range and the next member is
  a Range: if the two overlap or are adjacent, the last member is replaced by the result of
  the Range's union with the next one (a failed type assertion if that is no single member),
  and otherwise the next Range is appended. With the model of ranges, the Union of
  \<open>>=1.0.0, <2.0.0\<close> and \<open>>=2.0.0, <3.0.0\<close> is the single Range \<open>>=1.0.0, <3.0.0\<close>.
\<close>

theorem Union_merges_ranges:
  "(nuc \<noteq> [] \<and> last nuc = RangeR lt \<longrightarrow>
      mergeStep env nuc (RangeR ct) =
        (if rangeMatchesAny env lt (RangeC ct) \<or> areAdjacent env lt ct
         then (case rangeUnion env lt (RangeC ct) of
                 VersionC v \<Rightarrow> Inr (butlast nuc @ [VersionR v])
               | RangeC merged \<Rightarrow> Inr (butlast nuc @ [RangeR merged])
               | _ \<Rightarrow> Inl TypeAssertionFailed)
         else Inr (nuc @ [RangeR ct]))) \<and>
   UnionOf exampleEnv
     [RangeC (Bounds (Incl (1, 0, 0)) (Excl (2, 0, 0))),
      RangeC (Bounds (Incl (2, 0, 0)) (Excl (3, 0, 0)))]
   = Inr (RangeC (Bounds (Incl (1, 0, 0)) (Excl (3, 0, 0))))"
proof (intro conjI impI)
  assume "nuc \<noteq> [] \<and> last nuc = RangeR lt"
  then show "mergeStep env nuc (RangeR ct) =
        (if rangeMatchesAny env lt (RangeC ct) \<or> areAdjacent env lt ct
         then (case rangeUnion env lt (RangeC ct) of
                 VersionC v \<Rightarrow> Inr (butlast nuc @ [VersionR v])
               | RangeC merged \<Rightarrow> Inr (butlast nuc @ [RangeR merged])
               | _ \<Rightarrow> Inl TypeAssertionFailed)
         else Inr (nuc @ [RangeR ct]))"
    by (simp add: mergeStep_range_range)
next
  show "UnionOf exampleEnv
     [RangeC (Bounds (Incl (1, 0, 0)) (Excl (2, 0, 0))),
      RangeC (Bounds (Incl (2, 0, 0)) (Excl (3, 0, 0)))]
   = Inr (RangeC (Bounds (Incl (1, 0, 0)) (Excl (3, 0, 0))))"
    by (simp add: UnionOf_def exampleEnv_def sortList_def mergeStep_def specMatchesAny_def
        specAreAdjacent_def mkRange_def IsNone_def)
qed

theorem Union_merges_ranges_witness:
  "last [RangeR (Bounds (Incl (1, 0, 0)) (Excl (2, 0, 0)))]
     = RangeR (Bounds (Incl (1, 0, 0)) (Excl (2, 0, 0))) \<and>
   areAdjacent exampleEnv (Bounds (Incl (1, 0, 0)) (Excl (2, 0, 0)))
     (Bounds (Incl (2, 0, 0)) (Excl (3, 0, 0))) \<and>
   mergeStep exampleEnv [RangeR (Bounds (Incl (1, 0, 0)) (Excl (2, 0, 0)))]
     (RangeR (Bounds (Incl (2, 0, 0)) (Excl (3, 0, 0))))
   = Inr [RangeR (Bounds (Incl (1, 0, 0)) (Excl (3, 0, 0)))] \<and>
   \<not> rangeMatchesAny exampleEnv (Bounds (Incl (1, 0, 0)) (Excl (2, 0, 0)))
     (RangeC (Bounds (Incl (3, 0, 0)) (Excl (4, 0, 0)))) \<and>
   \<not> areAdjacent exampleEnv (Bounds (Incl (1, 0, 0)) (Excl (2, 0, 0)))
     (Bounds (Incl (3, 0, 0)) (Excl (4, 0, 0))) \<and>
   mergeStep exampleEnv [RangeR (Bounds (Incl (1, 0, 0)) (Excl (2, 0, 0)))]
     (RangeR (Bounds (Incl (3, 0, 0)) (Excl (4, 0, 0))))
   = Inr [RangeR (Bounds (Incl (1, 0, 0)) (Excl (2, 0, 0))),
          RangeR (Bounds (Incl (3, 0, 0)) (Excl (4, 0, 0)))]"
  using Union_merges_ranges [of "[RangeR (Bounds (Incl (1, 0, 0)) (Excl (2, 0, 0)))]"
      "Bounds (Incl (1, 0, 0)) (Excl (2, 0, 0))" exampleEnv
      "Bounds (Incl (2, 0, 0)) (Excl (3, 0, 0))"]
    Union_merges_ranges [of "[RangeR (Bounds (Incl (1, 0, 0)) (Excl (2, 0, 0)))]"
      "Bounds (Incl (1, 0, 0)) (Excl (2, 0, 0))" exampleEnv
      "Bounds (Incl (3, 0, 0)) (Excl (4, 0, 0))"]
  by (simp add: exampleEnv_def specMatchesAny_def specAreAdjacent_def mkRange_def IsNone_def)

text \<open>
  C3 at the input of two Empty constraints: nothing is collected, the merged sequence is
  empty, and \<^verbatim>\<open>Union\<close> returns it wrapped: a UnionSet without members.
\<close>

theorem Union_of_two_empties: "UnionOf env [NoneC, NoneC] = Inr (UnionC [])"
  by (simp add: UnionOf_def sortList_def)

text \<open>
  C4, as the claim states it, fails where the Point lies inside the Range: the Range
  \<open>>=1.0.0, <3.0.0\<close> is sorted before the Point \<open>2.0.0\<close>, and the step keeps the Range alone.
\<close>

theorem point_after_range_counterexample:
  "sortList (Less exampleEnv)
     [VersionR (2, 0, 0), RangeR (Bounds (Incl (1, 0, 0)) (Excl (3, 0, 0)))]
   = [RangeR (Bounds (Incl (1, 0, 0)) (Excl (3, 0, 0))), VersionR (2, 0, 0)] \<and>
   mergeStep exampleEnv [RangeR (Bounds (Incl (1, 0, 0)) (Excl (3, 0, 0)))] (VersionR (2, 0, 0))
   = Inr [RangeR (Bounds (Incl (1, 0, 0)) (Excl (3, 0, 0)))] \<and>
   mergeStep exampleEnv [RangeR (Bounds (Incl (1, 0, 0)) (Excl (3, 0, 0)))] (VersionR (2, 0, 0))
   \<noteq> Inr ([RangeR (Bounds (Incl (1, 0, 0)) (Excl (3, 0, 0)))] @ [VersionR (2, 0, 0)])"
  by (simp add: exampleEnv_def sortList_def mergeStep_def widen_def rangeMatches_def)

text \<open>
  C4 as amended: when the last accumulated member is a Point and the next member is a Range,
  the Range is always appended. When the last accumulated member is a Range and the next
  member is a Point, the last member is replaced by the union of the Range with the Point:
  by that union if it is a single Point or Range, by its members if it is a UnionSet.
\<close>

theorem Union_point_and_range_steps:
  "(nuc1 \<noteq> [] \<and> last nuc1 = VersionR lv \<longrightarrow>
      mergeStep env nuc1 (RangeR ct) = Inr (nuc1 @ [RangeR ct])) \<and>
   (nuc2 \<noteq> [] \<and> last nuc2 = RangeR lt \<longrightarrow>
      mergeStep env nuc2 (VersionR cv) =
        (case rangeUnion env lt (VersionC cv) of
           VersionC v \<Rightarrow> Inr (butlast nuc2 @ [VersionR v])
         | RangeC merged \<Rightarrow> Inr (butlast nuc2 @ [RangeR merged])
         | UnionC members \<Rightarrow> Inr (butlast nuc2 @ members)
         | _ \<Rightarrow> Inl TypeAssertionFailed))"
  by (simp add: mergeStep_version_range mergeStep_range_version)

theorem Union_point_and_range_steps_witness:
  "last [VersionR (1, 2, 3)] = VersionR (1, 2, 3) \<and>
   mergeStep exampleEnv [VersionR (1, 2, 3)] (RangeR (Bounds (Incl (2, 0, 0)) (Excl (3, 0, 0))))
   = Inr [VersionR (1, 2, 3), RangeR (Bounds (Incl (2, 0, 0)) (Excl (3, 0, 0)))] \<and>
   last [RangeR (Bounds (Incl (1, 0, 0)) (Excl (2, 0, 0)))]
     = RangeR (Bounds (Incl (1, 0, 0)) (Excl (2, 0, 0))) \<and>
   mergeStep exampleEnv [RangeR (Bounds (Incl (1, 0, 0)) (Excl (2, 0, 0)))] (VersionR (2, 0, 0))
   = Inr [RangeR (Bounds (Incl (1, 0, 0)) (Incl (2, 0, 0)))]"
  using Union_point_and_range_steps [of "[VersionR (1, 2, 3)]" "(1, 2, 3)" exampleEnv
      "Bounds (Incl (2, 0, 0)) (Excl (3, 0, 0))"
      "[RangeR (Bounds (Incl (1, 0, 0)) (Excl (2, 0, 0)))]"
      "Bounds (Incl (1, 0, 0)) (Excl (2, 0, 0))" "(2, 0, 0)"]
  by (simp add: exampleEnv_def widen_def rangeMatches_def)

section \<open>Panics\<close>

lemma intersectionScan_no_panic:
  "OtherC \<notin> set cg \<Longrightarrow> intersectionScan real cg \<noteq> Panicked p"
  by (induction cg arbitrary: real) (auto split: constraint.splits)

lemma unionScan_no_panic:
  "OtherC \<notin> set cg \<Longrightarrow> unionScan real cg \<noteq> Panicked p"
  by (induction cg arbitrary: real) (auto split: constraint.splits)

lemma short_list: "\<not> 2 \<le> length cg \<Longrightarrow> cg = [] \<or> (\<exists>c. cg = [c])"
  by (cases cg; cases "tl cg") auto

lemma Intersection_many:
  "2 \<le> length cg \<Longrightarrow>
   Intersection env cg =
     (case intersectionScan [] cg of
        Returned c \<Rightarrow> Inr c
      | Panicked p \<Rightarrow> Inl p
      | Collected real \<Rightarrow> Inr (intersectLoop env (hd cg) (tl cg)))"
  by (cases cg; cases "tl cg")
    (auto simp: Intersection_def Let_def simp del: intersectionScan.simps split: scan.splits)

lemma UnionOf_many:
  "2 \<le> length cg \<Longrightarrow>
   UnionOf env cg =
     (case unionScan [] cg of
        Returned c \<Rightarrow> Inr c
      | Panicked p \<Rightarrow> Inl p
      | Collected real \<Rightarrow>
          (case mergeLoop env [] (sortList (Less env) real) of
             Inl p \<Rightarrow> Inl p
           | Inr nuc \<Rightarrow>
               if length nuc = 1 then Inr (toConstraint (nuc ! 0)) else Inr (UnionC nuc)))"
  by (cases cg; cases "tl cg")
    (auto simp: UnionOf_def simp del: unionScan.simps)

lemma Intersection_returns:
  assumes "OtherC \<notin> set cg"
  shows "\<exists>c. Intersection env cg = Inr c"
proof (cases "2 \<le> length cg")
  case True
  with assms show ?thesis
    by (auto simp: Intersection_many intersectionScan_no_panic split: scan.splits)
next
  case False
  then show ?thesis
    using short_list [of cg] by (auto simp: Intersection_def)
qed

lemma mergeStep_panic: "mergeStep env nuc c = Inl p \<Longrightarrow> p = TypeAssertionFailed"
  by (auto simp: mergeStep_def Let_def
      split: if_splits realConstraint.splits option.splits constraint.splits)

lemma mergeLoop_panic: "mergeLoop env nuc cs = Inl p \<Longrightarrow> p = TypeAssertionFailed"
  by (induction cs arbitrary: nuc) (auto split: sum.splits dest: mergeStep_panic)

lemma Union_no_unknown_type:
  assumes "OtherC \<notin> set cg"
  shows "UnionOf env cg \<noteq> Inl UnknownConstraintType"
proof (cases "2 \<le> length cg")
  case True
  with assms show ?thesis
    by (auto simp: UnionOf_many unionScan_no_panic
        split: scan.splits sum.splits dest: mergeLoop_panic)
next
  case False
  then show ?thesis
    using short_list [of cg] by (auto simp: UnionOf_def)
qed

lemma mergeStep_returns:
  assumes "unionShapes env"
  shows "\<exists>nuc'. mergeStep env nuc c = Inr nuc'"
proof (cases "nuc = []")
  case True
  then show ?thesis by (simp add: mergeStep_def)
next
  case False
  show ?thesis
  proof (cases "last nuc")
    case (VersionR lt)
    with False show ?thesis
      by (cases c) (simp_all add: mergeStep_def last_index)
  next
    case (RangeR lt)
    show ?thesis
    proof (cases c)
      case (VersionR cv)
      from assms have "case rangeUnion env lt (VersionC cv) of
                VersionC _ \<Rightarrow> True | RangeC _ \<Rightarrow> True | UnionC _ \<Rightarrow> True | _ \<Rightarrow> False"
        unfolding unionShapes_def by blast
      with False RangeR VersionR show ?thesis
        by (simp add: mergeStep_range_version split: constraint.splits)
    next
      case ct: (RangeR ct)
      from assms have "rangeMatchesAny env lt (RangeC ct) \<or> areAdjacent env lt ct \<longrightarrow>
                asReal (rangeUnion env lt (RangeC ct)) \<noteq> None"
        unfolding unionShapes_def by blast
      with False RangeR ct show ?thesis
        by (auto simp: mergeStep_range_range split: constraint.splits)
    qed
  qed
qed

lemma mergeLoop_returns:
  assumes "unionShapes env"
  shows "\<exists>nuc'. mergeLoop env nuc cs = Inr nuc'"
proof (induction cs arbitrary: nuc)
  case Nil
  show ?case by simp
next
  case (Cons c cs)
  from assms obtain nuc1 where "mergeStep env nuc c = Inr nuc1"
    using mergeStep_returns by blast
  with Cons.IH [of nuc1] show ?case by simp
qed

lemma Union_returns:
  assumes "OtherC \<notin> set cg" and "unionShapes env"
  shows "\<exists>c. UnionOf env cg = Inr c"
proof (cases "2 \<le> length cg")
  case True
  show ?thesis
  proof (cases "unionScan [] cg")
    case (Returned c)
    with True show ?thesis by (simp add: UnionOf_many)
  next
    case (Panicked p)
    with assms(1) unionScan_no_panic show ?thesis by blast
  next
    case (Collected real)
    from assms(2) obtain nuc where "mergeLoop env [] (sortList (Less env) real) = Inr nuc"
      using mergeLoop_returns by blast
    with True Collected show ?thesis by (simp add: UnionOf_many)
  qed
next
  case False
  then show ?thesis
    using short_list [of cg] by (auto simp: UnionOf_def)
qed

text \<open>
  C10: on an input whose elements are all of the five variants, neither function reaches its
  \<^verbatim>\<open>panic("unknown constraint type")\<close>. \<^verbatim>\<open>Intersection\<close> returns a value; so does \<^verbatim>\<open>Union\<close>,
  given that the Range's union has the shapes that the type assertions of the merge loop
  expect.
\<close>

theorem no_unknown_constraint_type_panic:
  "OtherC \<notin> set cg \<longrightarrow>
     (\<exists>c. Intersection env cg = Inr c) \<and>
     UnionOf env cg \<noteq> Inl UnknownConstraintType \<and>
     (unionShapes env \<longrightarrow> (\<exists>c. UnionOf env cg = Inr c))"
  by (simp add: Intersection_returns Union_no_unknown_type Union_returns)

lemma exampleEnv_shapes: "unionShapes exampleEnv"
  by (simp add: unionShapes_def exampleEnv_def widen_def)

theorem no_unknown_constraint_type_panic_witness:
  "OtherC \<notin> set [VersionC (1, 2, 3), AnyC, RangeC (Bounds (Incl (1, 0, 0)) Unbounded)] \<and>
   unionShapes exampleEnv \<and>
   Intersection exampleEnv [VersionC (1, 2, 3), AnyC, RangeC (Bounds (Incl (1, 0, 0)) Unbounded)]
     = Inr (VersionC (1, 2, 3)) \<and>
   (\<exists>c. UnionOf exampleEnv
           [VersionC (1, 2, 3), NoneC, RangeC (Bounds (Incl (1, 0, 0)) Unbounded)] = Inr c)"
  using no_unknown_constraint_type_panic
    [of "[VersionC (1, 2, 3), NoneC, RangeC (Bounds (Incl (1, 0, 0)) Unbounded)]" exampleEnv]
    exampleEnv_shapes
  by (simp add: Intersection_def exampleEnv_def IsNone_def rangeMatches_def)

section \<open>NewConstraint and the cache\<close>

lemma parseLoop_acc:
  "parseLoop env result cs =
     (case parseLoop env [] cs of Inl err \<Rightarrow> Inl err | Inr ms \<Rightarrow> Inr (result @ ms))"
proof (induction cs arbitrary: result)
  case Nil
  show ?case by simp
next
  case (Cons s cs)
  show ?case
  proof (cases "parseConstraint env s")
    case (Inl err)
    then show ?thesis by simp
  next
    case (Inr pc)
    then show ?thesis
      using Cons.IH [of "result @ [pc]"] Cons.IH [of "[pc]"]
      by (simp split: sum.splits)
  qed
qed

lemma allDone_parseLoop:
  "allDone (map (parseMember env) cs) =
     (case parseLoop env [] cs of Inl err \<Rightarrow> Failed err | Inr ms \<Rightarrow> Done ms)"
proof (induction cs)
  case Nil
  show ?case by simp
next
  case (Cons s cs)
  show ?case
  proof (cases "parseConstraint env s")
    case (Inl err)
    then show ?thesis by (simp add: parseMember_def)
  next
    case (Inr pc)
    then show ?thesis
      using Cons.IH parseLoop_acc [of env "[pc]" cs]
      by (simp add: parseMember_def split: sum.splits)
  qed
qed

lemma andGroup_parseLoop:
  "andGroup env v =
     (case parseLoop env [] (Split v '','') of
        Inl err \<Rightarrow> Failed err
      | Inr result \<Rightarrow>
          (case Intersection env result of Inl p \<Rightarrow> Panic p | Inr c \<Rightarrow> Done c))"
  by (simp add: andGroup_def allDone_parseLoop split: sum.splits)

lemma orLoop_allDone:
  "orLoop env orc ors =
     (case allDone (map (andGroup env) ors) of
        Panic p \<Rightarrow> Panic p
      | Failed err \<Rightarrow> Failed err
      | Done groups \<Rightarrow> Done (orc @ groups))"
proof (induction ors arbitrary: orc)
  case Nil
  show ?case by simp
next
  case (Cons v ors)
  show ?case
    by (simp add: andGroup_parseLoop Cons.IH split: sum.splits outcome.splits)
qed

lemma NewConstraint_miss:
  assumes "cacheConstraints st \<longrightarrow> constraintCache st inp = None"
  shows "NewConstraint env st inp =
     (pipeline env inp,
      case pipeline env inp of
        Done final \<Rightarrow>
          if cacheConstraints st
          then st\<lparr>constraintCache := (constraintCache st)(inp \<mapsto> final)\<rparr> else st
      | _ \<Rightarrow> st)"
  using assms
  by (auto simp: NewConstraint_def pipeline_def orLoop_allDone
      split: outcome.splits sum.splits)

lemma NewConstraint_hit:
  assumes "cacheConstraints st" and "constraintCache st inp = Some final"
  shows "NewConstraint env st inp = (Done final, st)"
  using assms by (simp add: NewConstraint_def)

lemma NewConstraint_keeps_cacheInv:
  assumes "cacheInv env st"
  shows "cacheInv env (snd (NewConstraint env st inp))"
proof (cases "cacheConstraints st \<longrightarrow> constraintCache st inp = None")
  case True
  with assms show ?thesis
    by (auto simp: NewConstraint_miss cacheInv_def split: outcome.splits)
next
  case False
  with assms show ?thesis
    by (auto simp: NewConstraint_hit)
qed

text \<open>
  C8: in every state that the program reaches, the result of \<^verbatim>\<open>NewConstraint\<close> on an
  expression is the result of the procedure: rewrite the hyphen ranges, split on \<^verbatim>\<open>||\<close>,
  split each OR-group on \<^verbatim>\<open>,\<close>, parse each member, fold each group with Intersection and
  the groups with Union. The initial state is such a state, and a call leads from such a
  state to such a state.
\<close>

theorem NewConstraint_follows_procedure:
  "cacheInv env \<lparr>cacheConstraints = enabled, constraintCache = Map.empty\<rparr> \<and>
   (cacheInv env st \<longrightarrow>
      fst (NewConstraint env st inp) = pipeline env inp \<and>
      cacheInv env (snd (NewConstraint env st inp)))"
proof (intro conjI impI)
  show "cacheInv env \<lparr>cacheConstraints = enabled, constraintCache = Map.empty\<rparr>"
    by (simp add: cacheInv_def)
next
  assume inv: "cacheInv env st"
  show "fst (NewConstraint env st inp) = pipeline env inp"
  proof (cases "cacheConstraints st \<longrightarrow> constraintCache st inp = None")
    case True
    then show ?thesis by (simp add: NewConstraint_miss)
  next
    case False
    then obtain final where hit: "cacheConstraints st" "constraintCache st inp = Some final"
      by auto
    with inv have "pipeline env inp = Done final" by (simp add: cacheInv_def)
    with hit show ?thesis by (simp add: NewConstraint_hit)
  qed
  from inv show "cacheInv env (snd (NewConstraint env st inp))"
    by (rule NewConstraint_keeps_cacheInv)
qed

lemma split_example:
  "Split ''>=1.0.0,<2.0.0||>=2.0.0,<3.0.0'' ''||'' = [''>=1.0.0,<2.0.0'', ''>=2.0.0,<3.0.0'']"
  "Split ''>=1.0.0,<2.0.0'' '','' = [''>=1.0.0'', ''<2.0.0'']"
  "Split ''>=2.0.0,<3.0.0'' '','' = [''>=2.0.0'', ''<3.0.0'']"
  by (simp_all add: Split_def)

lemma pipeline_example:
  "pipeline exampleEnv ''>=1.0.0,<2.0.0||>=2.0.0,<3.0.0''
   = Done (RangeC (Bounds (Incl (1, 0, 0)) (Excl (3, 0, 0))))"
proof -
  have 1: "andGroup exampleEnv ''>=1.0.0,<2.0.0''
      = Done (RangeC (Bounds (Incl (1, 0, 0)) (Excl (2, 0, 0))))"
    by (simp add: andGroup_def split_example parseMember_def exampleEnv_def exampleParse_def
        exampleTokens_def Intersection_def IsNone_def mkRange_def)
  have 2: "andGroup exampleEnv ''>=2.0.0,<3.0.0''
      = Done (RangeC (Bounds (Incl (2, 0, 0)) (Excl (3, 0, 0))))"
    by (simp add: andGroup_def split_example parseMember_def exampleEnv_def exampleParse_def
        exampleTokens_def Intersection_def IsNone_def mkRange_def)
  have 3: "UnionOf exampleEnv
     [RangeC (Bounds (Incl (1, 0, 0)) (Excl (2, 0, 0))),
      RangeC (Bounds (Incl (2, 0, 0)) (Excl (3, 0, 0)))]
   = Inr (RangeC (Bounds (Incl (1, 0, 0)) (Excl (3, 0, 0))))"
    by (simp add: UnionOf_def exampleEnv_def sortList_def mergeStep_def specMatchesAny_def
        specAreAdjacent_def mkRange_def IsNone_def)
  have "rewriteRange exampleEnv ''>=1.0.0,<2.0.0||>=2.0.0,<3.0.0''
      = ''>=1.0.0,<2.0.0||>=2.0.0,<3.0.0''"
    by (simp add: exampleEnv_def)
  with 1 2 3 show ?thesis
    unfolding pipeline_def by (simp add: split_example)
qed

theorem NewConstraint_follows_procedure_witness:
  "cacheInv exampleEnv (emptyCache True) \<and>
   fst (NewConstraint exampleEnv (emptyCache True) ''>=1.0.0,<2.0.0||>=2.0.0,<3.0.0'')
   = Done (RangeC (Bounds (Incl (1, 0, 0)) (Excl (3, 0, 0))))"
  using NewConstraint_follows_procedure
    [of exampleEnv True "emptyCache True" "''>=1.0.0,<2.0.0||>=2.0.0,<3.0.0''"]
  by (simp add: emptyCache_def pipeline_example)

lemma allDone_member_fails:
  "list_ex (\<lambda>s. isl (parseConstraint env s)) cs \<Longrightarrow>
   \<exists>err. allDone (map (parseMember env) cs) = Failed err"
proof (induction cs)
  case Nil
  then show ?case by simp
next
  case (Cons s cs)
  show ?case
  proof (cases "parseConstraint env s")
    case (Inl err)
    then show ?thesis by (simp add: parseMember_def)
  next
    case (Inr pc)
    then have "parseMember env s = Done pc" by (simp add: parseMember_def)
    moreover from Inr Cons obtain err where "allDone (map (parseMember env) cs) = Failed err"
      by auto
    ultimately show ?thesis by simp
  qed
qed

lemma allDone_members_variants:
  "parsesToVariants env \<Longrightarrow> allDone (map (parseMember env) cs) = Done ms \<Longrightarrow> OtherC \<notin> set ms"
proof (induction cs arbitrary: ms)
  case Nil
  then show ?case by auto
next
  case (Cons s cs)
  then show ?case
    by (auto simp: parseMember_def parsesToVariants_def split: sum.splits outcome.splits)
qed

lemma andGroup_no_panic:
  assumes "parsesToVariants env"
  shows "andGroup env v \<noteq> Panic p"
proof (cases "allDone (map (parseMember env) (Split v '',''))")
  case (Panic q)
  have "allDone (map (parseMember env) cs) \<noteq> Panic q" for cs
    by (induction cs) (auto simp: parseMember_def split: sum.splits outcome.splits)
  with Panic show ?thesis by blast
next
  case (Failed err)
  then show ?thesis by (simp add: andGroup_def)
next
  case (Done ms)
  with assms have "OtherC \<notin> set ms" by (rule allDone_members_variants)
  then obtain c where "Intersection env ms = Inr c"
    using Intersection_returns by blast
  with Done show ?thesis by (simp add: andGroup_def)
qed

lemma andGroup_member_fails:
  "list_ex (\<lambda>s. isl (parseConstraint env s)) (Split v '','') \<Longrightarrow> \<exists>err. andGroup env v = Failed err"
  by (auto simp: andGroup_def dest: allDone_member_fails)

lemma allDone_group_fails:
  assumes "parsesToVariants env"
  shows "list_ex (\<lambda>v. list_ex (\<lambda>s. isl (parseConstraint env s)) (Split v '','')) ors \<Longrightarrow>
         \<exists>err. allDone (map (andGroup env) ors) = Failed err"
proof (induction ors)
  case Nil
  then show ?case by simp
next
  case (Cons v ors)
  show ?case
  proof (cases "andGroup env v")
    case (Panic p)
    with assms andGroup_no_panic show ?thesis by blast
  next
    case (Failed err)
    then show ?thesis by simp
  next
    case (Done c)
    then have "\<not> list_ex (\<lambda>s. isl (parseConstraint env s)) (Split v '','')"
      using andGroup_member_fails [of env v] by auto
    with Cons obtain err where "allDone (map (andGroup env) ors) = Failed err" by auto
    with Done show ?thesis by simp
  qed
qed

lemma pipeline_member_fails:
  assumes "parsesToVariants env" and "memberFails env inp"
  shows "\<exists>err. pipeline env inp = Failed err"
proof -
  from assms obtain err
    where "allDone (map (andGroup env) (Split (rewriteRange env inp) ''||'')) = Failed err"
    unfolding memberFails_def using allDone_group_fails by blast
  then show ?thesis by (simp add: pipeline_def)
qed

lemma NewConstraint_member_fails:
  assumes "cacheInv env st" and "parsesToVariants env" and "memberFails env inp"
  shows "\<exists>err. NewConstraint env st inp = (Failed err, st)"
proof -
  from assms(2,3) obtain err where failed: "pipeline env inp = Failed err"
    using pipeline_member_fails by blast
  with assms(1) have "constraintCache st inp = None"
    by (cases "constraintCache st inp") (auto simp: cacheInv_def)
  with failed show ?thesis by (simp add: NewConstraint_miss)
qed

lemma NewConstraint_cached:
  assumes "cacheConstraints st" and "fst (NewConstraint env st inp) = Done c"
  shows "constraintCache (snd (NewConstraint env st inp)) inp = Some c"
proof (cases "constraintCache st inp")
  case None
  with assms show ?thesis by (auto simp: NewConstraint_miss split: outcome.splits)
next
  case (Some final)
  with assms show ?thesis by (simp add: NewConstraint_hit)
qed

lemma NewConstraint_disabled:
  assumes "\<not> cacheConstraints st"
  shows "snd (NewConstraint env st inp) = st"
  using assms by (simp add: NewConstraint_miss split: outcome.splits)

lemma NewConstraint_cacheConstraints:
  "cacheConstraints (snd (NewConstraint env st inp)) = cacheConstraints st"
  by (cases "cacheConstraints st \<longrightarrow> constraintCache st inp = None")
    (auto simp: NewConstraint_miss NewConstraint_hit split: outcome.splits)

text \<open>
  C9, as the claim states it, fails in a state where \<^verbatim>\<open>cacheConstraints\<close> is false: the
  expression \<open>1.2.3\<close> parses, and the cache holds nothing for it afterwards.
\<close>

theorem caching_disabled_counterexample:
  "fst (NewConstraint exampleEnv (emptyCache False) ''1.2.3'') = Done (VersionC (1, 2, 3)) \<and>
   constraintCache (snd (NewConstraint exampleEnv (emptyCache False) ''1.2.3'')) ''1.2.3'' = None"
proof -
  have "Split ''1.2.3'' ''||'' = [''1.2.3'']" "Split ''1.2.3'' '','' = [''1.2.3'']"
    by (simp_all add: Split_def)
  then have "pipeline exampleEnv ''1.2.3'' = Done (VersionC (1, 2, 3))"
    by (simp add: pipeline_def andGroup_def parseMember_def exampleEnv_def exampleParse_def
        exampleTokens_def Intersection_def UnionOf_def)
  then show ?thesis
    by (simp add: NewConstraint_miss emptyCache_def)
qed

text \<open>
  C9 as amended. In a state that the program reaches, with a parser whose results are of the
  five variants: if a member of the expression fails to parse, \<^verbatim>\<open>NewConstraint\<close> returns an
  error and no constraint, and leaves the cache as it was. If the call succeeds and
  \<^verbatim>\<open>cacheConstraints\<close> is true, the cache then holds the result under the input string,
  and a second call with the same string returns it from the cache whatever the collaborators
  are, leaving the state as it is. If \<^verbatim>\<open>cacheConstraints\<close> is false, nothing is stored.
\<close>

theorem NewConstraint_cache_behaviour:
  "(cacheInv env st1 \<and> parsesToVariants env \<and> memberFails env inp1 \<longrightarrow>
      (\<exists>err. NewConstraint env st1 inp1 = (Failed err, st1))) \<and>
   (cacheConstraints st2 \<and> fst (NewConstraint env st2 inp2) = Done c \<longrightarrow>
      constraintCache (snd (NewConstraint env st2 inp2)) inp2 = Some c \<and>
      (\<forall>env'. NewConstraint env' (snd (NewConstraint env st2 inp2)) inp2
                = (Done c, snd (NewConstraint env st2 inp2)))) \<and>
   (\<not> cacheConstraints st3 \<longrightarrow> snd (NewConstraint env st3 inp3) = st3)"
proof (intro conjI impI)
  assume "cacheInv env st1 \<and> parsesToVariants env \<and> memberFails env inp1"
  then show "\<exists>err. NewConstraint env st1 inp1 = (Failed err, st1)"
    by (simp add: NewConstraint_member_fails)
next
  assume h: "cacheConstraints st2 \<and> fst (NewConstraint env st2 inp2) = Done c"
  then show "constraintCache (snd (NewConstraint env st2 inp2)) inp2 = Some c"
    by (simp add: NewConstraint_cached)
  from h show "\<forall>env'. NewConstraint env' (snd (NewConstraint env st2 inp2)) inp2
      = (Done c, snd (NewConstraint env st2 inp2))"
    by (simp add: NewConstraint_hit NewConstraint_cached NewConstraint_cacheConstraints)
next
  assume "\<not> cacheConstraints st3"
  then show "snd (NewConstraint env st3 inp3) = st3"
    by (rule NewConstraint_disabled)
qed

lemma exampleEnv_parses: "parsesToVariants exampleEnv"
proof -
  have "exampleParse s \<noteq> Inr OtherC" for s
    by (auto simp: exampleParse_def exampleTokens_def split: option.splits if_splits)
  then show ?thesis by (simp add: parsesToVariants_def exampleEnv_def)
qed

lemma memberFails_example: "memberFails exampleEnv ''1.2.3||>=1.0.0,oops''"
proof -
  have "Split ''1.2.3||>=1.0.0,oops'' ''||'' = [''1.2.3'', ''>=1.0.0,oops'']"
    "Split ''1.2.3'' '','' = [''1.2.3'']"
    "Split ''>=1.0.0,oops'' '','' = [''>=1.0.0'', ''oops'']"
    by (simp_all add: Split_def)
  then show ?thesis
    by (simp add: memberFails_def exampleEnv_def exampleParse_def exampleTokens_def)
qed

theorem NewConstraint_cache_behaviour_witness:
  "cacheInv exampleEnv (emptyCache True) \<and> parsesToVariants exampleEnv \<and>
   memberFails exampleEnv ''1.2.3||>=1.0.0,oops'' \<and>
   (\<exists>err. NewConstraint exampleEnv (emptyCache True) ''1.2.3||>=1.0.0,oops''
            = (Failed err, emptyCache True)) \<and>
   fst (NewConstraint exampleEnv (emptyCache True) ''>=1.0.0,<2.0.0||>=2.0.0,<3.0.0'')
     = Done (RangeC (Bounds (Incl (1, 0, 0)) (Excl (3, 0, 0)))) \<and>
   constraintCache
     (snd (NewConstraint exampleEnv (emptyCache True) ''>=1.0.0,<2.0.0||>=2.0.0,<3.0.0''))
     ''>=1.0.0,<2.0.0||>=2.0.0,<3.0.0''
     = Some (RangeC (Bounds (Incl (1, 0, 0)) (Excl (3, 0, 0)))) \<and>
   snd (NewConstraint exampleEnv (emptyCache False) ''1.2.3'') = emptyCache False"
proof -
  have inv: "cacheInv exampleEnv (emptyCache True)"
    by (simp add: cacheInv_def emptyCache_def)
  have run: "fst (NewConstraint exampleEnv (emptyCache True) ''>=1.0.0,<2.0.0||>=2.0.0,<3.0.0'')
     = Done (RangeC (Bounds (Incl (1, 0, 0)) (Excl (3, 0, 0))))"
    by (simp add: NewConstraint_miss emptyCache_def pipeline_example)
  have flags: "cacheConstraints (emptyCache True)" "\<not> cacheConstraints (emptyCache False)"
    by (simp_all add: emptyCache_def)
  show ?thesis
    using NewConstraint_cache_behaviour
      [of exampleEnv "emptyCache True" "''1.2.3||>=1.0.0,oops''"
        "emptyCache True" "''>=1.0.0,<2.0.0||>=2.0.0,<3.0.0''"
        "RangeC (Bounds (Incl (1, 0, 0)) (Excl (3, 0, 0)))"
        "emptyCache False" "''1.2.3''"]
      inv exampleEnv_parses memberFails_example run flags
    by blast
qed

section \<open>What Intersection and Union match\<close>

lemma set_moveLeft: "set (moveLeft lt x ys) = insert x (set ys)"
  by (induction ys) auto

lemma set_sortFrom: "set (sortFrom lt front xs) = set front \<union> set xs"
  by (induction xs arbitrary: front) (auto simp: set_moveLeft)

lemma set_sortList: "set (sortList lt xs) = set xs"
  by (simp add: sortList_def set_sortFrom)

lemma Matches_members:
  "c \<noteq> AnyC \<Longrightarrow> Matches rm c v = (\<exists>m\<in>set (membersOf c). realMatches rm m v)"
  by (cases c) (simp_all add: list_ex_iff)

lemma wellFormed_members:
  "wellFormed okr c \<Longrightarrow> \<forall>m\<in>set (membersOf c). realOk okr m"
  by (cases c) (simp_all add: list_all_iff)

lemma Matches_toConstraint: "Matches rm (toConstraint m) v = realMatches rm m v"
  by (cases m) simp_all

lemma wellFormed_toConstraint: "wellFormed okr (toConstraint m) = realOk okr m"
  by (cases m) simp_all

lemma unionScan_Returned: "unionScan real cg = Returned c \<Longrightarrow> c = AnyC \<and> AnyC \<in> set cg"
  by (induction cg arbitrary: real) (auto split: constraint.splits)

lemma unionScan_Collected:
  "unionScan real cg = Collected real' \<Longrightarrow>
   AnyC \<notin> set cg \<and> set real' = set real \<union> (\<Union>c\<in>set cg. set (membersOf c))"
proof (induction cg arbitrary: real)
  case Nil
  then show ?case by simp
next
  case (Cons c cg)
  show ?case
  proof (cases c)
    case AnyC
    with Cons.prems show ?thesis by simp
  next
    case NoneC
    with Cons.prems Cons.IH [of real] show ?thesis by simp
  next
    case (VersionC tc)
    with Cons.prems Cons.IH [of "real @ [VersionR tc]"] show ?thesis by auto
  next
    case (RangeC tc)
    with Cons.prems Cons.IH [of "real @ [RangeR tc]"] show ?thesis by auto
  next
    case (UnionC tc)
    with Cons.prems Cons.IH [of "real @ tc"] show ?thesis by auto
  next
    case OtherC
    with Cons.prems show ?thesis by simp
  qed
qed

lemma intersectionScan_Returned:
  "intersectionScan real cg = Returned c \<Longrightarrow> c = NoneC \<and> NoneC \<in> set cg"
  by (induction cg arbitrary: real) (auto split: constraint.splits)

lemma mergeStep_version_version:
  assumes "nuc \<noteq> []" and "last nuc = VersionR lt"
  shows "mergeStep env nuc (VersionR ct) =
     (if \<not> Equal env lt ct then Inr (nuc @ [VersionR ct]) else Inr nuc)"
  using assms by (simp add: mergeStep_def last_index)

lemma mergeStep_sound:
  assumes eq: "equalSound env" and un: "rangeUnionSound env rm okr"
    and ok: "\<forall>m\<in>set nuc. realOk okr m" "realOk okr c"
    and step: "mergeStep env nuc c = Inr nuc'"
  shows "(\<forall>m\<in>set nuc'. realOk okr m) \<and>
         (\<forall>v. (\<exists>m\<in>set nuc'. realMatches rm m v) =
              ((\<exists>m\<in>set nuc. realMatches rm m v) \<or> realMatches rm c v))"
proof (cases nuc rule: rev_cases)
  case Nil
  with step ok show ?thesis by (auto simp: mergeStep_def)
next
  case (snoc front l)
  then have ne: "nuc \<noteq> []" and la: "last nuc = l" and bu: "butlast nuc = front" by simp_all
  show ?thesis
  proof (cases l)
    case lv: (VersionR lt)
    show ?thesis
    proof (cases c)
      case (VersionR ct)
      have "Equal env lt ct \<Longrightarrow> lt = ct" using eq by (simp add: equalSound_def)
      with step ok snoc lv VersionR ne la show ?thesis
        by (auto simp: mergeStep_version_version split: if_splits)
    next
      case (RangeR ct)
      with step ok snoc lv ne la show ?thesis
        by (auto simp: mergeStep_version_range)
    qed
  next
    case lr: (RangeR lt)
    with ok snoc have oklt: "okr lt" by simp
    show ?thesis
    proof (cases c)
      case (VersionR ct)
      let ?c2 = "rangeUnion env lt (VersionC ct)"
      from un oklt have wf: "wellFormed okr ?c2"
        and sem: "\<And>v. Matches rm ?c2 v = (rm lt v \<or> v = ct)"
        unfolding rangeUnionSound_def by blast+
      from step VersionR lr ne la bu
      have "(\<exists>x. ?c2 = VersionC x \<and> nuc' = front @ [VersionR x]) \<or>
            (\<exists>x. ?c2 = RangeC x \<and> nuc' = front @ [RangeR x]) \<or>
            (\<exists>ms. ?c2 = UnionC ms \<and> nuc' = front @ ms)"
        by (auto simp: mergeStep_range_version split: constraint.splits)
      then show ?thesis
      proof (elim disjE exE conjE)
        fix x assume "?c2 = VersionC x" "nuc' = front @ [VersionR x]"
        with wf sem ok snoc lr VersionR show ?thesis by auto
      next
        fix x assume "?c2 = RangeC x" "nuc' = front @ [RangeR x]"
        with wf sem ok snoc lr VersionR show ?thesis by auto
      next
        fix ms assume c2: "?c2 = UnionC ms" and n: "nuc' = front @ ms"
        from wf c2 have okms: "\<forall>m\<in>set ms. realOk okr m"
          by (simp add: list_all_iff)
        from sem c2 have semms: "\<And>v. (\<exists>m\<in>set ms. realMatches rm m v) = (rm lt v \<or> v = ct)"
          by (simp add: list_ex_iff)
        from okms ok snoc n have "\<forall>m\<in>set nuc'. realOk okr m" by auto
        moreover have "(\<exists>m\<in>set nuc'. realMatches rm m v) =
              ((\<exists>m\<in>set nuc. realMatches rm m v) \<or> realMatches rm c v)" for v
          using semms [of v] by (auto simp: n snoc lr VersionR bex_Un)
        ultimately show ?thesis by blast
      qed
    next
      case cr: (RangeR ct)
      with ok have okct: "okr ct" by simp
      show ?thesis
      proof (cases "rangeMatchesAny env lt (RangeC ct) \<or> areAdjacent env lt ct")
        case True
        let ?c2 = "rangeUnion env lt (RangeC ct)"
        from un oklt okct True have wf: "wellFormed okr ?c2"
          and sem: "\<And>v. Matches rm ?c2 v = (rm lt v \<or> rm ct v)"
          unfolding rangeUnionSound_def by blast+
        from step cr lr ne la bu True
        have "(\<exists>x. ?c2 = VersionC x \<and> nuc' = front @ [VersionR x]) \<or>
              (\<exists>x. ?c2 = RangeC x \<and> nuc' = front @ [RangeR x])"
          by (auto simp: mergeStep_range_range split: constraint.splits)
        then show ?thesis
        proof (elim disjE exE conjE)
          fix x assume "?c2 = VersionC x" "nuc' = front @ [VersionR x]"
          with wf sem ok snoc lr cr show ?thesis by auto
        next
          fix x assume "?c2 = RangeC x" "nuc' = front @ [RangeR x]"
          with wf sem ok snoc lr cr show ?thesis by auto
        qed
      next
        case False
        with step ok snoc lr cr ne la show ?thesis
          by (auto simp: mergeStep_range_range)
      qed
    qed
  qed
qed

lemma mergeLoop_sound:
  assumes eq: "equalSound env" and un: "rangeUnionSound env rm okr"
  shows "\<forall>m\<in>set nuc. realOk okr m \<Longrightarrow> \<forall>m\<in>set cs. realOk okr m \<Longrightarrow>
         mergeLoop env nuc cs = Inr nuc' \<Longrightarrow>
         (\<forall>m\<in>set nuc'. realOk okr m) \<and>
         (\<forall>v. (\<exists>m\<in>set nuc'. realMatches rm m v) =
              ((\<exists>m\<in>set nuc. realMatches rm m v) \<or> (\<exists>m\<in>set cs. realMatches rm m v)))"
proof (induction cs arbitrary: nuc)
  case Nil
  then show ?case by simp
next
  case (Cons c cs)
  from Cons.prems(3) obtain nuc1 where step: "mergeStep env nuc c = Inr nuc1"
    and rest: "mergeLoop env nuc1 cs = Inr nuc'"
    by (auto split: sum.splits)
  from Cons.prems have "realOk okr c" by simp
  with eq un Cons.prems(1) step
  have 1: "\<forall>m\<in>set nuc1. realOk okr m"
    and 2: "\<And>v. (\<exists>m\<in>set nuc1. realMatches rm m v) =
              ((\<exists>m\<in>set nuc. realMatches rm m v) \<or> realMatches rm c v)"
    using mergeStep_sound [of env rm okr nuc c nuc1] by blast+
  from Cons.prems(2) have "\<forall>m\<in>set cs. realOk okr m" by simp
  with 1 rest Cons.IH [of nuc1]
  have 3: "\<forall>m\<in>set nuc'. realOk okr m"
    and 4: "\<And>v. (\<exists>m\<in>set nuc'. realMatches rm m v) =
              ((\<exists>m\<in>set nuc1. realMatches rm m v) \<or> (\<exists>m\<in>set cs. realMatches rm m v))"
    by blast+
  from 3 show ?case by (simp add: 4 2)
qed

lemma wellFormed_not_OtherC: "\<forall>c\<in>set cg. wellFormed okr c \<Longrightarrow> OtherC \<notin> set cg"
  by auto

lemma Union_sound:
  assumes eq: "equalSound env" and un: "rangeUnionSound env rm okr"
    and sh: "unionShapes env" and wf: "\<forall>c\<in>set cg. wellFormed okr c"
  shows "\<exists>x. UnionOf env cg = Inr x \<and> wellFormed okr x \<and>
             (\<forall>v. Matches rm x v = (\<exists>c\<in>set cg. Matches rm c v))"
proof (cases "2 \<le> length cg")
  case False
  with wf show ?thesis
    using short_list [of cg] by (auto simp: UnionOf_def)
next
  case True
  from wf have no: "OtherC \<notin> set cg" by (rule wellFormed_not_OtherC)
  show ?thesis
  proof (cases "unionScan [] cg")
    case (Returned c)
    then have "c = AnyC \<and> AnyC \<in> set cg" by (rule unionScan_Returned)
    with True Returned show ?thesis
      by (auto simp: UnionOf_many intro: bexI [of _ AnyC])
  next
    case (Panicked p)
    with no unionScan_no_panic show ?thesis by blast
  next
    case (Collected real)
    then have noany: "AnyC \<notin> set cg"
      and mem: "set real = (\<Union>c\<in>set cg. set (membersOf c))"
      using unionScan_Collected [of "[]" cg real] by auto
    from sh obtain nuc where loop: "mergeLoop env [] (sortList (Less env) real) = Inr nuc"
      using mergeLoop_returns by blast
    have okreal: "\<forall>m\<in>set (sortList (Less env) real). realOk okr m"
      using wf wellFormed_members by (fastforce simp: set_sortList mem)
    with eq un loop have oknuc: "\<forall>m\<in>set nuc. realOk okr m"
      and sem: "\<And>v. (\<exists>m\<in>set nuc. realMatches rm m v) = (\<exists>m\<in>set real. realMatches rm m v)"
      using mergeLoop_sound [of env rm okr "[]" "sortList (Less env) real" nuc]
      by (auto simp: set_sortList)
    have inputs: "(\<exists>m\<in>set real. realMatches rm m v) = (\<exists>c\<in>set cg. Matches rm c v)" for v
    proof -
      have "(\<exists>c\<in>set cg. Matches rm c v) =
            (\<exists>c\<in>set cg. \<exists>m\<in>set (membersOf c). realMatches rm m v)"
        using noany Matches_members [of _ rm v] by (metis (no_types, lifting))
      then show ?thesis by (auto simp: mem)
    qed
    show ?thesis
    proof (cases "length nuc = 1")
      case one: True
      then obtain m where nuc: "nuc = [m]" by (cases nuc) auto
      with True Collected loop have "UnionOf env cg = Inr (toConstraint m)"
        by (simp add: UnionOf_many)
      moreover from oknuc nuc have "wellFormed okr (toConstraint m)"
        by (simp add: wellFormed_toConstraint)
      moreover have "Matches rm (toConstraint m) v = (\<exists>c\<in>set cg. Matches rm c v)" for v
        using sem [of v] inputs [of v] nuc by (simp add: Matches_toConstraint)
      ultimately show ?thesis by blast
    next
      case many: False
      with True Collected loop have "UnionOf env cg = Inr (UnionC nuc)"
        by (simp add: UnionOf_many)
      moreover from oknuc have "wellFormed okr (UnionC nuc)"
        by (simp add: list_all_iff)
      moreover have "Matches rm (UnionC nuc) v = (\<exists>c\<in>set cg. Matches rm c v)" for v
        using sem [of v] inputs [of v] by (simp add: list_ex_iff)
      ultimately show ?thesis by blast
    qed
  qed
qed

lemma intersectLoop_sound:
  assumes "intersectSound env rm okr"
  shows "wellFormed okr car \<Longrightarrow> \<forall>c\<in>set cdr. wellFormed okr c \<Longrightarrow>
         wellFormed okr (intersectLoop env car cdr) \<and>
         (\<forall>v. Matches rm (intersectLoop env car cdr) v =
              (Matches rm car v \<and> (\<forall>c\<in>set cdr. Matches rm c v)))"
proof (induction cdr arbitrary: car)
  case Nil
  then show ?case by simp
next
  case (Cons c cdr)
  let ?car = "Intersect env car c"
  from assms Cons.prems have wf: "wellFormed okr ?car"
    and sem: "\<And>v. Matches rm ?car v = (Matches rm car v \<and> Matches rm c v)"
    unfolding intersectSound_def by auto
  show ?case
  proof (cases "IsNone ?car")
    case True
    then have "?car = NoneC" by (simp add: IsNone_def split: constraint.splits)
    with sem have "\<And>v. \<not> (Matches rm car v \<and> Matches rm c v)" by (metis Matches.simps(2))
    with True show ?thesis by (auto simp: Let_def)
  next
    case False
    with wf Cons.prems Cons.IH [of ?car] show ?thesis
      by (simp add: Let_def sem)
  qed
qed

lemma Intersection_sound:
  assumes isound: "intersectSound env rm okr" and wf: "\<forall>c\<in>set cg. wellFormed okr c"
    and ne: "cg \<noteq> []"
  shows "\<exists>x. Intersection env cg = Inr x \<and> wellFormed okr x \<and>
             (\<forall>v. Matches rm x v = (\<forall>c\<in>set cg. Matches rm c v))"
proof (cases "2 \<le> length cg")
  case False
  with wf ne show ?thesis
    using short_list [of cg] by (auto simp: Intersection_def)
next
  case True
  from wf have no: "OtherC \<notin> set cg" by (rule wellFormed_not_OtherC)
  from True obtain car cdr where cg: "cg = car # cdr" by (cases cg) auto
  show ?thesis
  proof (cases "intersectionScan [] cg")
    case (Returned c)
    then have "c = NoneC \<and> NoneC \<in> set cg" by (rule intersectionScan_Returned)
    with True Returned show ?thesis
      by (auto simp: Intersection_many intro: bexI [of _ NoneC])
  next
    case (Panicked p)
    with no intersectionScan_no_panic show ?thesis by blast
  next
    case (Collected real)
    with True cg have "Intersection env cg = Inr (intersectLoop env car cdr)"
      by (simp add: Intersection_many del: intersectionScan.simps)
    with isound wf cg intersectLoop_sound [of env rm okr car cdr] show ?thesis
      by auto
  qed
qed

section \<open>The model of versions and ranges is sound\<close>

lemma aboveLower_tightest:
  "aboveLower (tightestLower a b) v = (aboveLower a v \<and> aboveLower b v)"
  by (cases a; cases b) auto

lemma belowUpper_tightest:
  "belowUpper (tightestUpper a b) v = (belowUpper a v \<and> belowUpper b v)"
  by (cases a; cases b) auto

lemma aboveLower_loosest:
  "aboveLower (loosestLower a b) v = (aboveLower a v \<or> aboveLower b v)"
  by (cases a; cases b) (auto simp: min_def split: if_splits)

lemma belowUpper_loosest:
  "belowUpper (loosestUpper a b) v = (belowUpper a v \<or> belowUpper b v)"
  by (cases a; cases b) (auto simp: max_def split: if_splits)

lemma validBounds_gap_free: "validBounds lo hi \<Longrightarrow> belowUpper hi v \<or> aboveLower lo v"
  by (cases lo; cases hi) auto

lemma validBounds_empty:
  "\<not> validBounds lo hi \<Longrightarrow> aboveLower lo v \<Longrightarrow> belowUpper hi v \<Longrightarrow>
   (\<exists>x. lo = Incl x \<and> hi = Incl x \<and> v = x)"
  by (cases lo; cases hi) auto

lemma validBounds_loosest_left:
  "validBounds a b \<Longrightarrow> validBounds (loosestLower a c) (loosestUpper b d)"
  by (cases a; cases b; cases c; cases d) (auto simp: min_def max_def)

lemma validBounds_tightest:
  "validBounds (tightestLower a c) (tightestUpper b d) \<Longrightarrow> validBounds a d \<and> validBounds c b"
  by (cases a; cases b; cases c; cases d) (auto simp: min_def max_def split: if_splits)

lemma merged_bounds:
  assumes "\<And>v. belowUpper u1 v \<or> aboveLower l2 v" and "\<And>v. belowUpper u2 v \<or> aboveLower l1 v"
  shows "(aboveLower (loosestLower l1 l2) v \<and> belowUpper (loosestUpper u1 u2) v) =
         (aboveLower l1 v \<and> belowUpper u1 v \<or> aboveLower l2 v \<and> belowUpper u2 v)"
  using assms [of v] by (auto simp: aboveLower_loosest belowUpper_loosest)

lemma point_overlap_gap_free:
  assumes "tightestLower a c = Incl x" and "tightestUpper b d = Incl x"
  shows "(belowUpper b v \<or> aboveLower c v) \<and> (belowUpper d v \<or> aboveLower a v)"
proof -
  have "aboveLower (Incl x) v = (aboveLower a v \<and> aboveLower c v)"
    using aboveLower_tightest [of a c v] assms(1) by simp
  moreover have "belowUpper (Incl x) v = (belowUpper b v \<and> belowUpper d v)"
    using belowUpper_tightest [of b d v] assms(2) by simp
  ultimately show ?thesis
    using linear [of x v] by auto
qed


lemma Matches_mkRange:
  "Matches rangeMatches (mkRange lo hi) v = (aboveLower lo v \<and> belowUpper hi v)"
proof (cases "validBounds lo hi")
  case True
  then show ?thesis by (simp add: mkRange_def rangeMatches_def)
next
  case False
  show ?thesis
  proof (cases "\<exists>x. lo = Incl x \<and> hi = Incl x")
    case True
    with False show ?thesis by (auto simp: mkRange_def)
  next
    case no_point: False
    with False validBounds_empty [of lo hi v]
    have "\<not> (aboveLower lo v \<and> belowUpper hi v)" by blast
    moreover from False no_point have "mkRange lo hi = NoneC"
      by (auto simp: mkRange_def split: bound.splits)
    ultimately show ?thesis by simp
  qed
qed

lemma wellFormed_mkRange: "wellFormed validRange (mkRange lo hi)"
  by (auto simp: mkRange_def validRange_def split: bound.splits)

lemma mkRange_shape:
  "mkRange lo hi = NoneC \<or> (\<exists>p. mkRange lo hi = VersionC p) \<or>
   (validBounds lo hi \<and> mkRange lo hi = RangeC (Bounds lo hi))"
  by (auto simp: mkRange_def split: bound.splits)

lemma mkRange_overlap:
  "mkRange lo hi \<noteq> NoneC \<Longrightarrow> validBounds lo hi \<or> (\<exists>x. lo = Incl x \<and> hi = Incl x)"
  by (auto simp: mkRange_def split: bound.splits if_splits)

lemma Matches_realIntersect:
  "Matches rangeMatches (realIntersect m n) v =
     (realMatches rangeMatches m v \<and> realMatches rangeMatches n v)"
  by (cases m; cases n)
    (auto simp: Matches_mkRange aboveLower_tightest belowUpper_tightest rangeMatches_def)

lemma wellFormed_realIntersect: "wellFormed validRange (realIntersect m n)"
  by (cases m; cases n) (simp_all add: wellFormed_mkRange)

lemma realIntersect_not_AnyC: "realIntersect m n \<noteq> AnyC"
  using mkRange_shape by (cases m; cases n) (auto, metis constraint.distinct)

lemma Matches_pack: "Matches rm (pack ms) v = (\<exists>m\<in>set ms. realMatches rm m v)"
  by (cases ms rule: pack.cases) (simp_all add: Matches_toConstraint list_ex_iff)

lemma wellFormed_pack: "wellFormed okr (pack ms) = (\<forall>m\<in>set ms. realOk okr m)"
  by (cases ms rule: pack.cases) (simp_all add: wellFormed_toConstraint list_all_iff)

lemma specIntersect_members:
  assumes "a \<noteq> AnyC" "a \<noteq> NoneC" "a \<noteq> OtherC" "b \<noteq> AnyC" "b \<noteq> NoneC" "b \<noteq> OtherC"
  shows "specIntersect a b =
     pack (concat (map (\<lambda>m. concat (map (\<lambda>n. membersOf (realIntersect m n)) (membersOf b)))
                       (membersOf a)))"
  using assms by (cases a; cases b) simp_all

lemma specIntersect_sound:
  assumes "wellFormed validRange a" and "wellFormed validRange b"
  shows "wellFormed validRange (specIntersect a b) \<and>
         (\<forall>v. Matches rangeMatches (specIntersect a b) v =
              (Matches rangeMatches a v \<and> Matches rangeMatches b v))"
proof (cases "a = AnyC \<or> a = NoneC \<or> b = AnyC \<or> b = NoneC")
  case True
  with assms show ?thesis by (cases a; cases b) auto
next
  case False
  with assms have ne: "a \<noteq> AnyC" "a \<noteq> NoneC" "a \<noteq> OtherC" "b \<noteq> AnyC" "b \<noteq> NoneC" "b \<noteq> OtherC"
    by auto
  have wf: "wellFormed validRange (specIntersect a b)"
    using wellFormed_realIntersect wellFormed_members
    by (fastforce simp: specIntersect_members [OF ne] wellFormed_pack)
  have "Matches rangeMatches (specIntersect a b) v =
          (Matches rangeMatches a v \<and> Matches rangeMatches b v)" for v
  proof -
    have "Matches rangeMatches (specIntersect a b) v =
          (\<exists>m\<in>set (membersOf a). \<exists>n\<in>set (membersOf b).
             \<exists>k\<in>set (membersOf (realIntersect m n)). realMatches rangeMatches k v)"
      by (simp add: specIntersect_members [OF ne] Matches_pack)
    also have "\<dots> = (\<exists>m\<in>set (membersOf a). \<exists>n\<in>set (membersOf b).
             Matches rangeMatches (realIntersect m n) v)"
      using Matches_members [OF realIntersect_not_AnyC, of rangeMatches] by simp
    also have "\<dots> = ((\<exists>m\<in>set (membersOf a). realMatches rangeMatches m v) \<and>
                     (\<exists>n\<in>set (membersOf b). realMatches rangeMatches n v))"
      by (auto simp: Matches_realIntersect)
    also have "\<dots> = (Matches rangeMatches a v \<and> Matches rangeMatches b v)"
      using ne by (simp add: Matches_members)
    finally show ?thesis .
  qed
  with wf show ?thesis by blast
qed

lemma exampleEnv_intersectSound: "intersectSound exampleEnv rangeMatches validRange"
  by (simp add: intersectSound_def exampleEnv_def specIntersect_sound)

lemma exampleEnv_equalSound: "equalSound exampleEnv"
  by (simp add: equalSound_def exampleEnv_def)


lemma nextVersion_greater: "u < nextVersion u"
  by (cases u) auto

lemma nextVersion_least: "u < v \<Longrightarrow> nextVersion u \<le> v"
  by (cases u; cases v) auto

lemma touches_gap_free: "touches u l \<Longrightarrow> belowUpper u v \<or> aboveLower l v"
proof (cases u; cases l)
  fix x y assume "touches u l" "u = Incl x" "l = Incl y"
  then have "x = y \<or> nextVersion x = y" by simp
  then show ?thesis
    using \<open>u = Incl x\<close> \<open>l = Incl y\<close> nextVersion_least [of x v] linear [of v x]
    by (metis aboveLower.simps(2) belowUpper.simps(2) not_le)
qed (use linear [of v] in \<open>auto simp: not_le\<close>)

lemma touches_order:
  "touches u l \<Longrightarrow> validBounds lo u \<Longrightarrow> validBounds l hi \<Longrightarrow> validBounds lo hi"
proof (cases u; cases l)
  fix x y assume h: "touches u l" "validBounds lo u" "validBounds l hi" "u = Incl x" "l = Incl y"
  then have "x \<le> y" using nextVersion_greater [of x] by auto
  with h show ?thesis by (cases lo; cases hi) auto
next
  fix x y assume h: "touches u l" "validBounds lo u" "validBounds l hi" "u = Incl x" "l = Excl y"
  then show ?thesis by (cases lo; cases hi) auto
next
  fix x y assume h: "touches u l" "validBounds lo u" "validBounds l hi" "u = Excl x" "l = Incl y"
  then show ?thesis by (cases lo; cases hi) auto
qed auto

lemma validBounds_Incl_upper: "validBounds lo (Incl p) \<Longrightarrow> aboveLower lo p"
  by (cases lo) auto

lemma validBounds_Incl_lower: "validBounds (Incl p) hi \<Longrightarrow> belowUpper hi p"
  by (cases hi) auto

lemma widen_sound:
  assumes "validRange r"
  shows "wellFormed validRange (widen r p) \<and>
         (\<forall>v. Matches rangeMatches (widen r p) v = (rangeMatches r v \<or> v = p))"
proof (cases "rangeMatches r p")
  case True
  with assms show ?thesis by (auto simp: widen_def simp del: split_paired_All)
next
  case inside: False
  show ?thesis
  proof (cases "touches (upper r) (Incl p)")
    case True
    have below: "belowUpper (upper r) v \<Longrightarrow> v \<le> p" for v
    proof (cases "upper r")
      case Unbounded
      with True show ?thesis by simp
    next
      case (Incl x)
      with True have "x \<le> p" using nextVersion_greater [of x] by auto
      then show "belowUpper (upper r) v \<Longrightarrow> v \<le> p" using Incl by auto
    next
      case (Excl x)
      with True show "belowUpper (upper r) v \<Longrightarrow> v \<le> p" by auto
    qed
    have lower_p: "validBounds (lower r) (Incl p)"
    proof (cases "upper r")
      case Unbounded
      with True show ?thesis by simp
    next
      case (Incl x)
      with True have "x \<le> p" using nextVersion_greater [of x] by auto
      with assms Incl show ?thesis by (cases "lower r") (auto simp: validRange_def)
    next
      case (Excl x)
      with True assms show ?thesis by (cases "lower r") (auto simp: validRange_def)
    qed
    then have at_p: "aboveLower (lower r) p" by (rule validBounds_Incl_upper)
    have "(aboveLower (lower r) v \<and> v \<le> p) = (rangeMatches r v \<or> v = p)" for v
      using touches_gap_free [OF True, of v] below [of v] at_p
      by (auto simp: rangeMatches_def)
    moreover have "rangeMatches (Bounds (lower r) (Incl p)) v
        = (aboveLower (lower r) v \<and> v \<le> p)" for v
      by (simp add: rangeMatches_def)
    ultimately have "rangeMatches (Bounds (lower r) (Incl p)) v
        = (rangeMatches r v \<or> v = p)" for v
      by simp
    moreover have "widen r p = RangeC (Bounds (lower r) (Incl p))"
      using inside True by (simp add: widen_def)
    ultimately show ?thesis
      using lower_p by (simp add: validRange_def del: split_paired_All)
  next
    case no_upper: False
    show ?thesis
    proof (cases "touches (Incl p) (lower r)")
      case True
      have above: "aboveLower (lower r) v \<Longrightarrow> p \<le> v" for v
      proof (cases "lower r")
        case Unbounded
        with True show ?thesis by simp
      next
        case (Incl x)
        with True have "p \<le> x" using nextVersion_greater [of p] by auto
        then show "aboveLower (lower r) v \<Longrightarrow> p \<le> v" using Incl by auto
      next
        case (Excl x)
        with True show "aboveLower (lower r) v \<Longrightarrow> p \<le> v" by auto
      qed
      have p_upper: "validBounds (Incl p) (upper r)"
      proof (cases "lower r")
        case Unbounded
        with True show ?thesis by simp
      next
        case (Incl x)
        with True have "p \<le> x" using nextVersion_greater [of p] by auto
        with assms Incl show ?thesis by (cases "upper r") (auto simp: validRange_def)
      next
        case (Excl x)
        with True assms show ?thesis by (cases "upper r") (auto simp: validRange_def)
      qed
      then have at_p: "belowUpper (upper r) p" by (rule validBounds_Incl_lower)
      have "(p \<le> v \<and> belowUpper (upper r) v) = (rangeMatches r v \<or> v = p)" for v
        using touches_gap_free [OF True, of v] above [of v] at_p
        by (auto simp: rangeMatches_def)
      moreover have "rangeMatches (Bounds (Incl p) (upper r)) v
          = (p \<le> v \<and> belowUpper (upper r) v)" for v
        by (simp add: rangeMatches_def)
      ultimately have "rangeMatches (Bounds (Incl p) (upper r)) v
          = (rangeMatches r v \<or> v = p)" for v
        by simp
      moreover have "widen r p = RangeC (Bounds (Incl p) (upper r))"
        using inside no_upper True by (simp add: widen_def)
      ultimately show ?thesis
        using p_upper by (simp add: validRange_def del: split_paired_All)
    next
      case False
      with inside no_upper assms show ?thesis
        by (auto simp: widen_def simp del: split_paired_All)
    qed
  qed
qed

lemma specMatchesAny_ranges:
  "specMatchesAny r1 (RangeC r2) =
     (mkRange (tightestLower (lower r1) (lower r2)) (tightestUpper (upper r1) (upper r2)) \<noteq> NoneC)"
  using mkRange_shape [of "tightestLower (lower r1) (lower r2)" "tightestUpper (upper r1) (upper r2)"]
  by (auto simp: specMatchesAny_def IsNone_def)

lemma merge_sound:
  assumes v1: "validRange r1" and v2: "validRange r2"
    and near: "specMatchesAny r1 (RangeC r2) \<or> specAreAdjacent r1 r2"
  shows "validRange (Bounds (loosestLower (lower r1) (lower r2)) (loosestUpper (upper r1) (upper r2))) \<and>
         (\<forall>v. rangeMatches (Bounds (loosestLower (lower r1) (lower r2))
                                   (loosestUpper (upper r1) (upper r2))) v =
              (rangeMatches r1 v \<or> rangeMatches r2 v))"
proof -
  have gaps: "(belowUpper (upper r1) v \<or> aboveLower (lower r2) v) \<and>
              (belowUpper (upper r2) v \<or> aboveLower (lower r1) v)" for v
  proof -
    from near consider
      (valid) "validBounds (tightestLower (lower r1) (lower r2)) (tightestUpper (upper r1) (upper r2))"
      | (point) x where "tightestLower (lower r1) (lower r2) = Incl x"
          "tightestUpper (upper r1) (upper r2) = Incl x"
      | (left) "touches (upper r1) (lower r2)"
      | (right) "touches (upper r2) (lower r1)"
      using mkRange_overlap [of "tightestLower (lower r1) (lower r2)"
          "tightestUpper (upper r1) (upper r2)"]
      unfolding specMatchesAny_ranges specAreAdjacent_def by blast
    then show ?thesis
    proof cases
      case valid
      then have "validBounds (lower r1) (upper r2)" "validBounds (lower r2) (upper r1)"
        using validBounds_tightest by blast+
      then show ?thesis using validBounds_gap_free by blast
    next
      case point
      then show ?thesis using point_overlap_gap_free by blast
    next
      case left
      with v1 v2 have "validBounds (lower r1) (upper r2)"
        using touches_order by (auto simp: validRange_def)
      with left show ?thesis using validBounds_gap_free touches_gap_free by blast
    next
      case right
      with v1 v2 have "validBounds (lower r2) (upper r1)"
        using touches_order by (auto simp: validRange_def)
      with right show ?thesis using validBounds_gap_free touches_gap_free by blast
    qed
  qed
  have "rangeMatches (Bounds (loosestLower (lower r1) (lower r2))
                             (loosestUpper (upper r1) (upper r2))) v =
        (rangeMatches r1 v \<or> rangeMatches r2 v)" for v
    using merged_bounds [of "upper r1" "lower r2" "upper r2" "lower r1" v] gaps
    by (simp add: rangeMatches_def)
  moreover from v1 have "validRange (Bounds (loosestLower (lower r1) (lower r2))
                             (loosestUpper (upper r1) (upper r2)))"
    by (simp add: validRange_def validBounds_loosest_left)
  ultimately show ?thesis by blast
qed

lemma exampleEnv_rangeUnionSound: "rangeUnionSound exampleEnv rangeMatches validRange"
  unfolding rangeUnionSound_def
proof (intro conjI allI impI)
  fix r p assume "validRange r"
  then show "wellFormed validRange (rangeUnion exampleEnv r (VersionC p))"
    using widen_sound [of r p] by (simp add: exampleEnv_def del: split_paired_All)
next
  fix r p v assume "validRange r"
  then show "Matches rangeMatches (rangeUnion exampleEnv r (VersionC p)) v
      = (rangeMatches r v \<or> v = p)"
    using widen_sound [of r p] by (simp add: exampleEnv_def del: split_paired_All)
next
  fix r1 r2
  assume h: "validRange r1 \<and> validRange r2 \<and>
      (rangeMatchesAny exampleEnv r1 (RangeC r2) \<or> areAdjacent exampleEnv r1 r2)"
  then show "wellFormed validRange (rangeUnion exampleEnv r1 (RangeC r2))"
    using merge_sound [of r1 r2] by (auto simp: exampleEnv_def simp del: split_paired_All)
next
  fix r1 r2 v
  assume h: "validRange r1 \<and> validRange r2 \<and>
      (rangeMatchesAny exampleEnv r1 (RangeC r2) \<or> areAdjacent exampleEnv r1 r2)"
  then show "Matches rangeMatches (rangeUnion exampleEnv r1 (RangeC r2)) v
      = (rangeMatches r1 v \<or> rangeMatches r2 v)"
    using merge_sound [of r1 r2] by (auto simp: exampleEnv_def simp del: split_paired_All)
qed

section \<open>Commutativity and associativity\<close>

text \<open>
  C7: given that the pairwise operations declared outside constraints.go are sound (each
  matches what the spec says it matches and keeps the invariant of ranges), for well-formed
  constraints \<open>a\<close>, \<open>b\<close>, \<open>c\<close> the Intersection of \<open>[a, b]\<close> and of \<open>[b, a]\<close> return values that
  match the same versions, and so do the Union of \<open>[a, b]\<close> and of \<open>[b, a]\<close>; and both
  operations are associative in the same sense.
\<close>

theorem operations_commute_and_associate:
  assumes "equalSound env" and "intersectSound env rm okr"
    and "rangeUnionSound env rm okr" and "unionShapes env"
    and "wellFormed okr a" and "wellFormed okr b" and "wellFormed okr c"
  shows "equivalent rm (Intersection env [a, b]) (Intersection env [b, a]) \<and>
         equivalent rm (UnionOf env [a, b]) (UnionOf env [b, a]) \<and>
         equivalent rm
           (andThen (Intersection env [a, b]) (\<lambda>ab. Intersection env [ab, c]))
           (andThen (Intersection env [b, c]) (\<lambda>bc. Intersection env [a, bc])) \<and>
         equivalent rm
           (andThen (UnionOf env [a, b]) (\<lambda>ab. UnionOf env [ab, c]))
           (andThen (UnionOf env [b, c]) (\<lambda>bc. UnionOf env [a, bc]))"
proof -
  have inter: "\<exists>x. Intersection env [p, q] = Inr x \<and> wellFormed okr x \<and>
      (\<forall>v. Matches rm x v = (Matches rm p v \<and> Matches rm q v))"
    if "wellFormed okr p" "wellFormed okr q" for p q
    using Intersection_sound [of env rm okr "[p, q]"] assms(2) that by simp
  have union: "\<exists>x. UnionOf env [p, q] = Inr x \<and> wellFormed okr x \<and>
      (\<forall>v. Matches rm x v = (Matches rm p v \<or> Matches rm q v))"
    if "wellFormed okr p" "wellFormed okr q" for p q
    using Union_sound [of env rm okr "[p, q]"] assms(1,3,4) that by simp
  from inter [of a b] inter [of b a] assms(5,6)
  have 1: "equivalent rm (Intersection env [a, b]) (Intersection env [b, a])"
    by (auto simp: equivalent_def)
  from union [of a b] union [of b a] assms(5,6)
  have 2: "equivalent rm (UnionOf env [a, b]) (UnionOf env [b, a])"
    by (auto simp: equivalent_def)
  have 3: "equivalent rm
           (andThen (Intersection env [a, b]) (\<lambda>ab. Intersection env [ab, c]))
           (andThen (Intersection env [b, c]) (\<lambda>bc. Intersection env [a, bc]))"
  proof -
    from inter [of a b] assms(5,6) obtain ab where ab: "Intersection env [a, b] = Inr ab"
      "wellFormed okr ab" "\<And>v. Matches rm ab v = (Matches rm a v \<and> Matches rm b v)" by blast
    from inter [of b c] assms(6,7) obtain bc where bc: "Intersection env [b, c] = Inr bc"
      "wellFormed okr bc" "\<And>v. Matches rm bc v = (Matches rm b v \<and> Matches rm c v)" by blast
    from inter [of ab c] ab(2) assms(7) obtain l where l: "Intersection env [ab, c] = Inr l"
      "\<And>v. Matches rm l v = (Matches rm ab v \<and> Matches rm c v)" by blast
    from inter [of a bc] bc(2) assms(5) obtain r where r: "Intersection env [a, bc] = Inr r"
      "\<And>v. Matches rm r v = (Matches rm a v \<and> Matches rm bc v)" by blast
    show ?thesis
      by (auto simp: equivalent_def andThen_def ab(1,3) bc(1,3) l r)
  qed
  have 4: "equivalent rm
           (andThen (UnionOf env [a, b]) (\<lambda>ab. UnionOf env [ab, c]))
           (andThen (UnionOf env [b, c]) (\<lambda>bc. UnionOf env [a, bc]))"
  proof -
    from union [of a b] assms(5,6) obtain ab where ab: "UnionOf env [a, b] = Inr ab"
      "wellFormed okr ab" "\<And>v. Matches rm ab v = (Matches rm a v \<or> Matches rm b v)" by blast
    from union [of b c] assms(6,7) obtain bc where bc: "UnionOf env [b, c] = Inr bc"
      "wellFormed okr bc" "\<And>v. Matches rm bc v = (Matches rm b v \<or> Matches rm c v)" by blast
    from union [of ab c] ab(2) assms(7) obtain l where l: "UnionOf env [ab, c] = Inr l"
      "\<And>v. Matches rm l v = (Matches rm ab v \<or> Matches rm c v)" by blast
    from union [of a bc] bc(2) assms(5) obtain r where r: "UnionOf env [a, bc] = Inr r"
      "\<And>v. Matches rm r v = (Matches rm a v \<or> Matches rm bc v)" by blast
    show ?thesis
      by (auto simp: equivalent_def andThen_def ab(1,3) bc(1,3) l r)
  qed
  from 1 2 3 4 show ?thesis by blast
qed


theorem operations_commute_and_associate_witness:
  "equalSound exampleEnv \<and> intersectSound exampleEnv rangeMatches validRange \<and>
   rangeUnionSound exampleEnv rangeMatches validRange \<and> unionShapes exampleEnv \<and>
   wellFormed validRange (RangeC (Bounds (Incl (1, 0, 0)) (Excl (2, 0, 0)))) \<and>
   wellFormed validRange (VersionC (2, 0, 0)) \<and>
   wellFormed validRange (RangeC (Bounds (Incl (1, 5, 0)) Unbounded)) \<and>
   equivalent rangeMatches
     (Intersection exampleEnv [RangeC (Bounds (Incl (1, 0, 0)) (Excl (2, 0, 0))), VersionC (2, 0, 0)])
     (Intersection exampleEnv [VersionC (2, 0, 0), RangeC (Bounds (Incl (1, 0, 0)) (Excl (2, 0, 0)))]) \<and>
   equivalent rangeMatches
     (UnionOf exampleEnv [RangeC (Bounds (Incl (1, 0, 0)) (Excl (2, 0, 0))), VersionC (2, 0, 0)])
     (UnionOf exampleEnv [VersionC (2, 0, 0), RangeC (Bounds (Incl (1, 0, 0)) (Excl (2, 0, 0)))]) \<and>
   equivalent rangeMatches
     (andThen (Intersection exampleEnv
                 [RangeC (Bounds (Incl (1, 0, 0)) (Excl (2, 0, 0))), VersionC (2, 0, 0)])
        (\<lambda>ab. Intersection exampleEnv [ab, RangeC (Bounds (Incl (1, 5, 0)) Unbounded)]))
     (andThen (Intersection exampleEnv
                 [VersionC (2, 0, 0), RangeC (Bounds (Incl (1, 5, 0)) Unbounded)])
        (\<lambda>bc. Intersection exampleEnv [RangeC (Bounds (Incl (1, 0, 0)) (Excl (2, 0, 0))), bc])) \<and>
   equivalent rangeMatches
     (andThen (UnionOf exampleEnv
                 [RangeC (Bounds (Incl (1, 0, 0)) (Excl (2, 0, 0))), VersionC (2, 0, 0)])
        (\<lambda>ab. UnionOf exampleEnv [ab, RangeC (Bounds (Incl (1, 5, 0)) Unbounded)]))
     (andThen (UnionOf exampleEnv
                 [VersionC (2, 0, 0), RangeC (Bounds (Incl (1, 5, 0)) Unbounded)])
        (\<lambda>bc. UnionOf exampleEnv [RangeC (Bounds (Incl (1, 0, 0)) (Excl (2, 0, 0))), bc]))"
proof -
  have a: "wellFormed validRange (RangeC (Bounds (Incl (1, 0, 0)) (Excl (2, 0, 0))))"
    by (simp add: validRange_def)
  have b: "wellFormed validRange (VersionC (2, 0, 0))"
    by simp
  have c: "wellFormed validRange (RangeC (Bounds (Incl (1, 5, 0)) Unbounded))"
    by (simp add: validRange_def)
  show ?thesis
    using operations_commute_and_associate
      [OF exampleEnv_equalSound exampleEnv_intersectSound exampleEnv_rangeUnionSound
        exampleEnv_shapes a b c]
      exampleEnv_equalSound exampleEnv_intersectSound exampleEnv_rangeUnionSound
      exampleEnv_shapes a b c
    by blast
qed

end
